theory Spec2Isabelle
  imports Complex_Main "HOL-Library.Multiset"
begin

section \<open>Data model (models/Video)\<close>

text \<open>
  A JavaScript number is an IEEE 754 double. A finite double is modelled by the real
  number it denotes, so times are \<open>real\<close>; indices, counts and answers, which the
  code only copies, compares and counts, are \<open>int\<close>. Strings are lists of characters
  with codes below 256. An optional field, or a field that may be \<open>undefined\<close> in
  untyped input, is an \<open>option\<close>.
\<close>

record ISegment =
  startTime :: real
  endTime :: real
  seg_text :: string
  segmentIndex :: int

record IQuestion =
  question :: string
  options :: "string list"
  correctAnswer :: int
  explanation :: "string option"
  q_segmentIndex :: int

text \<open>The only field of the stored video document the controllers below read.\<close>

record Video =
  questions :: "IQuestion list option"

text \<open>Every failure in the modelled code is a JavaScript \<open>Error\<close> carrying a message.\<close>

datatype error = Error string

section \<open>Double-precision arithmetic\<close>

text \<open>
  The code adds, subtracts, multiplies and divides doubles. Each such operation returns
  the exact result rounded to the nearest double, ties to the even significand.
  \<open>double x\<close> is that rounding: \<open>binade\<close> finds the power of two \<open>2 ^ e\<close> with
  \<open>2 ^ e \<le> \<bar>x\<bar> < 2 ^ (e + 1)\<close>, kept within the exponents \<open>-1022\<close> (below it the
  doubles are subnormal) and \<open>1023\<close>; a double is a multiple of \<open>2 ^ e / 2 ^ 52\<close>.
  Infinities and NaN are not modelled: a result beyond the largest double stays finite
  here, which leaves every comparison the code makes unchanged.
\<close>

definition round_ties_even :: "real \<Rightarrow> int" where
  "round_ties_even y =
     (let f = \<lfloor>y\<rfloor>
      in if y - of_int f < 1 / 2 then f
         else if 1 / 2 < y - of_int f then f + 1
         else if even f then f else f + 1)"

fun pow2_up :: "nat \<Rightarrow> real \<Rightarrow> real \<Rightarrow> real" where
  "pow2_up 0 a p = p"
| "pow2_up (Suc n) a p = (if 2 * p \<le> a then pow2_up n a (2 * p) else p)"

fun pow2_down :: "nat \<Rightarrow> real \<Rightarrow> real \<Rightarrow> real" where
  "pow2_down 0 a p = p"
| "pow2_down (Suc n) a p = (if a < p then pow2_down n a (p / 2) else p)"

definition binade :: "real \<Rightarrow> real" where
  "binade a = (if 1 \<le> a then pow2_up 1023 a 1 else pow2_down 1021 a (1 / 2))"

definition double :: "real \<Rightarrow> real" where
  "double x = (let ulp = binade \<bar>x\<bar> / 2 ^ 52 in of_int (round_ties_even (x / ulp)) * ulp)"

text \<open>The operators \<open>+\<close>, \<open>-\<close>, \<open>*\<close> and \<open>/\<close> of the code.\<close>

definition dadd :: "real \<Rightarrow> real \<Rightarrow> real" where
  "dadd a b = double (a + b)"

definition dsub :: "real \<Rightarrow> real \<Rightarrow> real" where
  "dsub a b = double (a - b)"

definition dmul :: "real \<Rightarrow> real \<Rightarrow> real" where
  "dmul a b = double (a * b)"

definition ddiv :: "real \<Rightarrow> real \<Rightarrow> real" where
  "ddiv a b = double (a / b)"

section \<open>TranscriptionService: the segment merger\<close>

text \<open>
  One element of \<open>transcriptData.segments\<close> as the speech-to-text tool writes it.
  The input is untyped JSON (\<open>any\<close>), so each field may be missing.
\<close>

record raw_segment =
  raw_start :: "real option"
  raw_end :: "real option"
  raw_text :: "string option"

text \<open>\<open>transcriptData.segments\<close>: missing, present but not an array, or an array.\<close>

datatype segments_field = Missing | NotAnArray | SegmentArray "raw_segment list"

text \<open>
  \<open>String.prototype.trim\<close> removes white space and line terminators from both ends.
  Of those, the code units below 256 are 9 to 13, 32 and 160.
\<close>

definition isWhiteSpace :: "char \<Rightarrow> bool" where
  "isWhiteSpace c = (c \<in> set [CHR 0x09, CHR 0x0A, CHR 0x0B, CHR 0x0C, CHR 0x0D, CHR 0x20, CHR 0xA0])"

definition trim :: "string \<Rightarrow> string" where
  "trim s = rev (dropWhile isWhiteSpace (rev (dropWhile isWhiteSpace s)))"

text \<open>\<open>s.split(' ')\<close>: the pieces between single spaces, empty pieces included.\<close>

fun split_space :: "string \<Rightarrow> string list" where
  "split_space [] = [] # []"
| "split_space (c # cs) =
     (if c = CHR '' '' then [] # split_space cs
      else (case split_space cs of
              [] \<Rightarrow> [c] # []
            | w # ws \<Rightarrow> (c # w) # ws))"

definition segmentDuration :: real where
  "segmentDuration = 300"

definition minWords :: nat where
  "minWords = 50"

text \<open>\<open>segment.start || 0\<close>, \<open>segment.end || startTime + 1\<close> and
  \<open>(segment.text || '').trim()\<close>: a missing field and a falsy value (zero, the empty
  string) both take the default.\<close>

definition frag_startTime :: "raw_segment \<Rightarrow> real" where
  "frag_startTime segment =
     (case raw_start segment of None \<Rightarrow> 0 | Some s \<Rightarrow> if s = 0 then 0 else s)"

definition frag_endTime :: "raw_segment \<Rightarrow> real" where
  "frag_endTime segment =
     (case raw_end segment of
        None \<Rightarrow> dadd (frag_startTime segment) 1
      | Some e \<Rightarrow> if e = 0 then dadd (frag_startTime segment) 1 else e)"

definition frag_text :: "raw_segment \<Rightarrow> string" where
  "frag_text segment =
     trim (case raw_text segment of None \<Rightarrow> [] | Some t \<Rightarrow> if t = [] then [] else t)"

text \<open>
  The state of the loop in \<open>segmentTranscript\<close>: the array \<open>segments\<close>, the running
  \<open>currentSegment\<close> (or null) and the counter \<open>segmentIndex\<close>.
\<close>

type_synonym coarse_state = "ISegment list \<times> ISegment option \<times> int"

text \<open>The body of the loop, for one element of the input array.\<close>

fun coarse_step :: "raw_segment \<Rightarrow> coarse_state \<Rightarrow> coarse_state" where
  "coarse_step segment (segments, currentSegment, idx) =
     (if frag_text segment = [] then (segments, currentSegment, idx)
      else (case currentSegment of
              None \<Rightarrow>
                (segments,
                 Some \<lparr>startTime = frag_startTime segment, endTime = frag_endTime segment,
                       seg_text = frag_text segment, segmentIndex = idx\<rparr>,
                 idx)
            | Some cur \<Rightarrow>
                if dsub (endTime cur) (startTime cur) \<ge> segmentDuration
                then (segments @ [cur],
                      Some \<lparr>startTime = frag_startTime segment, endTime = frag_endTime segment,
                            seg_text = frag_text segment, segmentIndex = idx + 1\<rparr>,
                      idx + 1)
                else (segments,
                      Some (cur\<lparr>endTime := frag_endTime segment,
                                 seg_text := seg_text cur @ '' '' @ frag_text segment\<rparr>),
                      idx)))"

fun coarse_loop :: "raw_segment list \<Rightarrow> coarse_state \<Rightarrow> coarse_state" where
  "coarse_loop [] st = st"
| "coarse_loop (segment # rest) st = coarse_loop rest (coarse_step segment st)"

text \<open>The loop from the empty state, then the push of the last running segment.\<close>

definition coarsePass :: "raw_segment list \<Rightarrow> ISegment list" where
  "coarsePass frags =
     (case coarse_loop frags ([], None, 0) of
        (segments, None, idx) \<Rightarrow> segments
      | (segments, Some cur, idx) \<Rightarrow> segments @ [cur])"

text \<open>\<open>ensureMinimumSegmentLength\<close>: loop state is \<open>result\<close> and \<open>currentSegment\<close>.\<close>

definition wordCount :: "ISegment \<Rightarrow> nat" where
  "wordCount segment = length (split_space (seg_text segment))"

fun min_step :: "ISegment \<Rightarrow> ISegment list \<times> ISegment option \<Rightarrow> ISegment list \<times> ISegment option" where
  "min_step segment (result, currentSegment) =
     (case currentSegment of
        None \<Rightarrow> (result, Some segment)
      | Some cur \<Rightarrow>
          if wordCount segment < minWords
          then (result,
                Some (cur\<lparr>endTime := endTime segment,
                           seg_text := seg_text cur @ '' '' @ seg_text segment\<rparr>))
          else (result @ [cur], Some segment))"

fun min_loop :: "ISegment list \<Rightarrow> ISegment list \<times> ISegment option \<Rightarrow> ISegment list \<times> ISegment option" where
  "min_loop [] st = st"
| "min_loop (segment # rest) st = min_loop rest (min_step segment st)"

text \<open>\<open>result.map((segment, index) => ({...segment, segmentIndex: index}))\<close>\<close>

definition reindex :: "ISegment list \<Rightarrow> ISegment list" where
  "reindex result =
     map (\<lambda>(index, segment). segment\<lparr>segmentIndex := int index\<rparr>) (enumerate 0 result)"

definition ensureMinimumSegmentLength :: "ISegment list \<Rightarrow> ISegment list" where
  "ensureMinimumSegmentLength segments =
     (case min_loop segments ([], None) of
        (result, None) \<Rightarrow> reindex result
      | (result, Some cur) \<Rightarrow> reindex (result @ [cur]))"

definition segmentTranscript :: "segments_field \<Rightarrow> error + ISegment list" where
  "segmentTranscript segs =
     (case segs of
        SegmentArray frags \<Rightarrow> Inr (ensureMinimumSegmentLength (coarsePass frags))
      | _ \<Rightarrow> Inl (Error ''Failed to segment transcript: Invalid transcript format: missing segments array''))"

section \<open>QuestionController: quiz assembly and grading\<close>

text \<open>
  \<open>Math.random()\<close> is an ambient effect. A handler call is given the sequence of
  values its calls to \<open>Math.random()\<close> return, in call order; the number of calls made
  so far is threaded through the code as explicit state. The contract of
  \<open>Math.random()\<close> is that every value lies in the half-open unit interval; then
  every index \<open>j\<close> drawn by the shuffle lies within the array. The model says nothing
  useful about a shuffle with a value outside that interval (the list read \<open>xs ! j\<close>
  would be out of range), so every statement below about what a shuffle returns assumes
  \<open>valid_random\<close>.
\<close>

definition valid_random :: "(nat \<Rightarrow> real) \<Rightarrow> bool" where
  "valid_random rnd = (\<forall>k. 0 \<le> rnd k \<and> rnd k < 1)"

text \<open>
  \<open>shuffleArray\<close>: \<open>for (let i = shuffled.length - 1; i > 0; i--)\<close> with
  \<open>j = Math.floor(Math.random() * (i + 1))\<close> and the swap of positions \<open>i\<close> and \<open>j\<close>.
  The first argument of the loop is the current \<open>i\<close>. The product is taken exactly
  here. The statements below hold for every valid random source, that is, for every
  way of drawing each \<open>j\<close> from \<open>0\<close> to \<open>i\<close>, and none of them says which index
  a given random value draws.
\<close>

fun shuffle_loop :: "(nat \<Rightarrow> real) \<Rightarrow> nat \<Rightarrow> 'a list \<times> nat \<Rightarrow> 'a list \<times> nat" where
  "shuffle_loop rnd 0 (shuffled, k) = (shuffled, k)"
| "shuffle_loop rnd (Suc m) (shuffled, k) =
     (let i = Suc m;
          j = nat \<lfloor>rnd k * real (i + 1)\<rfloor>
      in shuffle_loop rnd m (shuffled[i := shuffled ! j, j := shuffled ! i], Suc k))"

definition shuffleArray :: "(nat \<Rightarrow> real) \<Rightarrow> 'a list \<times> nat \<Rightarrow> 'a list \<times> nat" where
  "shuffleArray rnd st = (case st of (array, k) \<Rightarrow> shuffle_loop rnd (length array - 1) (array, k))"

text \<open>\<open>xs.slice(0, n)\<close> for an integer \<open>n\<close>: a negative \<open>n\<close> counts from the end.\<close>

definition slice0 :: "'a list \<Rightarrow> int \<Rightarrow> 'a list" where
  "slice0 xs n = (if n < 0 then take (nat (int (length xs) + n)) xs else take (nat n) xs)"

text \<open>\<open>[...new Set(xs)]\<close>: the distinct values in order of first occurrence.\<close>

definition set_in_order :: "'a list \<Rightarrow> 'a list" where
  "set_in_order xs = fold (\<lambda>x seen. if x \<in> set seen then seen else seen @ [x]) xs []"

text \<open>The per-segment branch: one pass of the loop over \<open>segmentIndices\<close>.\<close>

fun per_segment_loop ::
  "(nat \<Rightarrow> real) \<Rightarrow> IQuestion list \<Rightarrow> int \<Rightarrow> int list \<Rightarrow> IQuestion list \<times> nat \<Rightarrow> IQuestion list \<times> nat" where
  "per_segment_loop rnd pool perSegment [] (selected, k) = (selected, k)"
| "per_segment_loop rnd pool perSegment (si # rest) (selected, k) =
     (let segmentQuestions = filter (\<lambda>q. q_segmentIndex q = si) pool;
          (shuffled, k') = shuffleArray rnd (segmentQuestions, k)
      in per_segment_loop rnd pool perSegment rest (selected @ slice0 shuffled perSegment, k'))"

text \<open>
  \<open>if (totalQuestions)\<close> is false for an omitted parameter and for zero. The result is
  \<open>selectedQuestions\<close> before the optional final shuffle, with the number of random
  values consumed.
\<close>

definition selectQuestions ::
  "(nat \<Rightarrow> real) \<Rightarrow> IQuestion list \<Rightarrow> int \<Rightarrow> int option \<Rightarrow> IQuestion list \<times> nat" where
  "selectQuestions rnd pool perSegment requested =
     (case requested of
        None \<Rightarrow> per_segment_loop rnd pool perSegment (set_in_order (map q_segmentIndex pool)) ([], 0)
      | Some t \<Rightarrow>
          if t = 0
          then per_segment_loop rnd pool perSegment (set_in_order (map q_segmentIndex pool)) ([], 0)
          else (case shuffleArray rnd (pool, 0) of (shuffled, k) \<Rightarrow> (slice0 shuffled t, k)))"

record QuizQuestion = IQuestion +
  questionIndex :: nat

record Quiz =
  quizId :: string
  quiz_questions :: "QuizQuestion list"
  quiz_totalQuestions :: nat
  instructions :: string

text \<open>Decimal digits of \<open>Date.now()\<close> for the template string of \<open>quizId\<close>.\<close>

fun decimal :: "nat \<Rightarrow> string" where
  "decimal n = (if n < 10 then [char_of (48 + n)] else decimal (n div 10) @ [char_of (48 + n mod 10)])"

declare decimal.simps [simp del]

definition withIndices :: "IQuestion list \<Rightarrow> QuizQuestion list" where
  "withIndices selected =
     map (\<lambda>(index, q). IQuestion.extend q (QuizQuestion.fields index)) (enumerate 0 selected)"

text \<open>
  \<open>generateQuiz\<close>. The store is a map from identifiers to documents; \<open>now\<close> is the value
  of \<open>Date.now()\<close>. The query parameters \<open>questionsPerSegment\<close> (default 2),
  \<open>totalQuestions\<close> (here \<open>requested\<close>) and \<open>shuffle\<close> (default true) are optional.
\<close>

definition generateQuiz ::
  "(string \<rightharpoonup> Video) \<Rightarrow> (nat \<Rightarrow> real) \<Rightarrow> nat \<Rightarrow> string \<Rightarrow> int option \<Rightarrow> int option \<Rightarrow> bool option
     \<Rightarrow> error + Quiz" where
  "generateQuiz db rnd now vid questionsPerSegment requested shuffle =
     (case db vid of
        None \<Rightarrow> Inl (Error ''Failed to generate quiz: Video not found'')
      | Some video \<Rightarrow>
          (case questions video of
             None \<Rightarrow> Inl (Error ''Failed to generate quiz: No questions available for this video'')
           | Some pool \<Rightarrow>
               if pool = []
               then Inl (Error ''Failed to generate quiz: No questions available for this video'')
               else
                 (let perSegment = (case questionsPerSegment of None \<Rightarrow> 2 | Some c \<Rightarrow> c);
                      (selected, k) = selectQuestions rnd pool perSegment requested;
                      selectedQuestions =
                        (if shuffle = Some False then selected
                         else fst (shuffleArray rnd (selected, k)))
                  in Inr \<lparr>quizId = vid @ ''_'' @ decimal now,
                          quiz_questions = withIndices selectedQuestions,
                          quiz_totalQuestions = length selectedQuestions,
                          instructions = ''Select the best answer for each question. Click 'Submit Quiz' when you're done.''\<rparr>)))"

record QuizAnswer =
  answer_questionIndex :: int
  selectedAnswer :: int

record QuizSubmission =
  videoId :: string
  answers :: "QuizAnswer list"

record AnswerResult =
  result_questionIndex :: int
  result_question :: string
  result_selectedAnswer :: int
  result_correctAnswer :: int
  isCorrect :: bool
  result_explanation :: string

record QuizResult =
  score :: nat
  totalQuestions :: nat
  percentage :: int
  result_answers :: "AnswerResult list"

text \<open>\<open>xs[i]\<close> for a number \<open>i\<close>: \<open>undefined\<close> outside the bounds of the array.\<close>

definition array_get :: "'a list \<Rightarrow> int \<Rightarrow> 'a option" where
  "array_get xs i = (if 0 \<le> i \<and> i < int (length xs) then Some (xs ! nat i) else None)"

text \<open>The body of the grading loop; the state is \<open>results\<close> and \<open>correctAnswers\<close>.\<close>

fun grade_step :: "IQuestion list \<Rightarrow> QuizAnswer \<Rightarrow> AnswerResult list \<times> nat \<Rightarrow> AnswerResult list \<times> nat" where
  "grade_step pool answer (results, correctAnswers) =
     (case array_get pool (answer_questionIndex answer) of
        None \<Rightarrow> (results, correctAnswers)
      | Some q \<Rightarrow>
          (let correct = (selectedAnswer answer = correctAnswer q)
           in (results @
                 [\<lparr>result_questionIndex = answer_questionIndex answer,
                   result_question = question q,
                   result_selectedAnswer = selectedAnswer answer,
                   result_correctAnswer = correctAnswer q,
                   isCorrect = correct,
                   result_explanation =
                     (case explanation q of
                        None \<Rightarrow> ''No explanation provided''
                      | Some e \<Rightarrow> if e = [] then ''No explanation provided'' else e)\<rparr>],
               if correct then correctAnswers + 1 else correctAnswers)))"

fun grade_loop :: "IQuestion list \<Rightarrow> QuizAnswer list \<Rightarrow> AnswerResult list \<times> nat \<Rightarrow> AnswerResult list \<times> nat" where
  "grade_loop pool [] st = st"
| "grade_loop pool (answer # rest) st = grade_loop pool rest (grade_step pool answer st)"

text \<open>
  \<open>submitQuiz\<close>. \<open>Math.round\<close> returns the integer nearest to its argument, the
  larger one at a tie, which is \<open>round\<close>; its argument is the double
  \<open>(correctAnswers / totalQuestions) * 100\<close>.
\<close>

definition submitQuiz :: "(string \<rightharpoonup> Video) \<Rightarrow> QuizSubmission \<Rightarrow> error + QuizResult" where
  "submitQuiz db submission =
     (case db (videoId submission) of
        None \<Rightarrow> Inl (Error ''Failed to submit quiz: Video not found'')
      | Some video \<Rightarrow>
          (case questions video of
             None \<Rightarrow> Inl (Error ''Failed to submit quiz: No questions available for grading'')
           | Some pool \<Rightarrow>
               if pool = []
               then Inl (Error ''Failed to submit quiz: No questions available for grading'')
               else
                 (case grade_loop pool (answers submission) ([], 0) of
                    (results, correctAnswers) \<Rightarrow>
                      (let submitted = length (answers submission)
                       in Inr \<lparr>score = correctAnswers,
                               totalQuestions = submitted,
                               percentage =
                                 (if submitted > 0
                                  then round (dmul (ddiv (real correctAnswers) (real submitted)) 100)
                                  else 0),
                               result_answers = results\<rparr>))))"

section \<open>Auxiliary notions for the statements\<close>

text \<open>The time interval of a segment and of a raw fragment (after the defaults).\<close>

definition seg_interval :: "ISegment \<Rightarrow> real \<times> real" where
  "seg_interval s = (startTime s, endTime s)"

definition frag_interval :: "raw_segment \<Rightarrow> real \<times> real" where
  "frag_interval f = (frag_startTime f, frag_endTime f)"

text \<open>The fragments the coarse pass does not skip.\<close>

definition kept_fragments :: "raw_segment list \<Rightarrow> raw_segment list" where
  "kept_fragments frags = filter (\<lambda>f. frag_text f \<noteq> []) frags"

text \<open>
  A list of intervals is chronological when no interval starts after its own end or
  after the end of a later one.
\<close>

fun chronological :: "(real \<times> real) list \<Rightarrow> bool" where
  "chronological [] = True"
| "chronological (p # ps) = (fst p \<le> snd p \<and> list_all (\<lambda>q. fst p \<le> snd q) ps \<and> chronological ps)"

text \<open>The running segment of a loop state, as a list of at most one segment.\<close>

fun running :: "ISegment option \<Rightarrow> ISegment list" where
  "running None = []"
| "running (Some cur) = [cur]"

text \<open>
  Follows the spec's words (4.1, step 2), for comparison with
  \<open>ensureMinimumSegmentLength\<close>: accumulate into a running segment until the running
  segment's word count reaches the threshold, then flush and start fresh from the next
  segment; flush what remains at the end; re-index.
\<close>

fun spec_min_step :: "ISegment \<Rightarrow> ISegment list \<times> ISegment option \<Rightarrow> ISegment list \<times> ISegment option" where
  "spec_min_step segment (result, currentSegment) =
     (let run = (case currentSegment of
                   None \<Rightarrow> segment
                 | Some cur \<Rightarrow> cur\<lparr>endTime := endTime segment,
                                  seg_text := seg_text cur @ '' '' @ seg_text segment\<rparr>)
      in if wordCount run \<ge> minWords then (result @ [run], None) else (result, Some run))"

fun spec_min_loop :: "ISegment list \<Rightarrow> ISegment list \<times> ISegment option \<Rightarrow> ISegment list \<times> ISegment option" where
  "spec_min_loop [] st = st"
| "spec_min_loop (segment # rest) st = spec_min_loop rest (spec_min_step segment st)"

definition spec_minimum_length_pass :: "ISegment list \<Rightarrow> ISegment list" where
  "spec_minimum_length_pass segments =
     (case spec_min_loop segments ([], None) of (result, cur) \<Rightarrow> reindex (result @ running cur))"

text \<open>How many questions of a list belong to segment \<open>s\<close>.\<close>

definition contribution :: "'a IQuestion_scheme list \<Rightarrow> int \<Rightarrow> nat" where
  "contribution qs s = length (filter (\<lambda>q. q_segmentIndex q = s) qs)"

text \<open>The stored questions an assembled quiz shows, without their quiz positions.\<close>

definition shown :: "Quiz \<Rightarrow> IQuestion list" where
  "shown quiz = map IQuestion.truncate (quiz_questions quiz)"

text \<open>
  For the statements about grading, stated on the stored list itself: whether a
  submitted offset lies within the stored list, whether the answer is the stored
  correct answer of the question at that offset, and the result record of a pair whose
  offset lies within the list.
\<close>

definition inBounds :: "IQuestion list \<Rightarrow> QuizAnswer \<Rightarrow> bool" where
  "inBounds pool answer =
     (0 \<le> answer_questionIndex answer \<and> answer_questionIndex answer < int (length pool))"

definition answeredCorrectly :: "IQuestion list \<Rightarrow> QuizAnswer \<Rightarrow> bool" where
  "answeredCorrectly pool answer =
     (inBounds pool answer \<and>
      selectedAnswer answer = correctAnswer (pool ! nat (answer_questionIndex answer)))"

definition answerRecord :: "IQuestion list \<Rightarrow> QuizAnswer \<Rightarrow> AnswerResult" where
  "answerRecord pool answer =
     \<lparr>result_questionIndex = answer_questionIndex answer,
      result_question = question (pool ! nat (answer_questionIndex answer)),
      result_selectedAnswer = selectedAnswer answer,
      result_correctAnswer = correctAnswer (pool ! nat (answer_questionIndex answer)),
      isCorrect = (selectedAnswer answer = correctAnswer (pool ! nat (answer_questionIndex answer))),
      result_explanation =
        (case explanation (pool ! nat (answer_questionIndex answer)) of
           None \<Rightarrow> ''No explanation provided''
         | Some e \<Rightarrow> if e = [] then ''No explanation provided'' else e)\<rparr>"
section \<open>Example inputs\<close>

text \<open>Sixty words and fifty words, separated by single spaces.\<close>

definition sixty_words :: string where
  "sixty_words = ''a a a a a a a a a a a a a a a a a a a a a a a a a a a a a a a a a a a a a a a a a a a a a a a a a a a a a a a a a a a a''"

definition fifty_words :: string where
  "fifty_words = ''a a a a a a a a a a a a a a a a a a a a a a a a a a a a a a a a a a a a a a a a a a a a a a a a a a''"

text \<open>The raw fragments of the spec's example: \<open>(0, 310, sixty words)\<close> and \<open>(310, 320, b)\<close>.\<close>

definition example_fragments :: "raw_segment list" where
  "example_fragments =
     [\<lparr>raw_start = Some 0, raw_end = Some 310, raw_text = Some sixty_words\<rparr>,
      \<lparr>raw_start = Some 310, raw_end = Some 320, raw_text = Some ''b''\<rparr>]"

text \<open>Three coarse segments of fifty words, one word and fifty words.\<close>

definition long_first :: ISegment where
  "long_first = \<lparr>startTime = 0, endTime = 310, seg_text = fifty_words, segmentIndex = 0\<rparr>"

definition short_middle :: ISegment where
  "short_middle = \<lparr>startTime = 310, endTime = 620, seg_text = ''b'', segmentIndex = 1\<rparr>"

definition long_last :: ISegment where
  "long_last = \<lparr>startTime = 620, endTime = 930, seg_text = fifty_words, segmentIndex = 2\<rparr>"

definition long_short_long :: "ISegment list" where
  "long_short_long = [long_first, short_middle, long_last]"

text \<open>
  Two fragments whose times are the doubles nearest to 0.01, 300.01 and 310: the exact
  difference of the first two is below 300, their double difference is 300.
\<close>

definition rounded_fragments :: "raw_segment list" where
  "rounded_fragments =
     [\<lparr>raw_start = Some (double (1 / 100)), raw_end = Some (double (30001 / 100)),
       raw_text = Some ''x''\<rparr>,
      \<lparr>raw_start = Some (double (30001 / 100)), raw_end = Some 310, raw_text = Some ''y''\<rparr>]"

text \<open>A fragment that ends before it starts, one with surrounding white space, and one
  with white space only.\<close>

definition backwards_fragment :: raw_segment where
  "backwards_fragment = \<lparr>raw_start = Some 10, raw_end = Some 5, raw_text = Some ''a''\<rparr>"

definition padded_fragment :: raw_segment where
  "padded_fragment = \<lparr>raw_start = Some 0, raw_end = Some 10, raw_text = Some '' hi''\<rparr>"

definition blank_fragment :: raw_segment where
  "blank_fragment = \<lparr>raw_start = Some 0, raw_end = Some 10, raw_text = Some ''  ''\<rparr>"

text \<open>Three stored questions in two segment groups, and stores holding them.\<close>

definition q0 :: IQuestion where
  "q0 = \<lparr>question = ''Q0'', options = [''a'', ''b'', ''c'', ''d''], correctAnswer = 1,
          explanation = None, q_segmentIndex = 0\<rparr>"

definition q1 :: IQuestion where
  "q1 = \<lparr>question = ''Q1'', options = [''a'', ''b'', ''c'', ''d''], correctAnswer = 2,
          explanation = Some ''because'', q_segmentIndex = 0\<rparr>"

definition q2 :: IQuestion where
  "q2 = \<lparr>question = ''Q2'', options = [''a'', ''b'', ''c'', ''d''], correctAnswer = 3,
          explanation = None, q_segmentIndex = 1\<rparr>"

definition example_video :: Video where
  "example_video = \<lparr>questions = Some [q0, q1, q2]\<rparr>"

definition example_db :: "string \<rightharpoonup> Video" where
  "example_db = [''v1'' \<mapsto> example_video]"

definition single_db :: "string \<rightharpoonup> Video" where
  "single_db = [''v1'' \<mapsto> \<lparr>questions = Some [q0]\<rparr>]"

text \<open>A store whose video has an empty list of questions.\<close>

definition empty_pool_db :: "string \<rightharpoonup> Video" where
  "empty_pool_db = [''v1'' \<mapsto> \<lparr>questions = Some []\<rparr>]"

text \<open>A random source that always returns one half.\<close>

definition half :: "nat \<Rightarrow> real" where
  "half k = 1 / 2"

text \<open>Submissions against \<open>example_db\<close>: one correct and one out-of-bounds pair; one
  correct and one incorrect pair.\<close>

definition submission_out_of_range :: QuizSubmission where
  "submission_out_of_range =
     \<lparr>videoId = ''v1'',
      answers = [\<lparr>answer_questionIndex = 0, selectedAnswer = 1\<rparr>,
                 \<lparr>answer_questionIndex = 7, selectedAnswer = 0\<rparr>]\<rparr>"

definition submission_half_right :: QuizSubmission where
  "submission_half_right =
     \<lparr>videoId = ''v1'',
      answers = [\<lparr>answer_questionIndex = 0, selectedAnswer = 1\<rparr>,
                 \<lparr>answer_questionIndex = 1, selectedAnswer = 0\<rparr>]\<rparr>"

text \<open>Forty pairs for the only question of \<open>single_db\<close>: 23 correct, 17 incorrect.\<close>

definition submission_23_of_40 :: QuizSubmission where
  "submission_23_of_40 =
     \<lparr>videoId = ''v1'',
      answers = replicate 23 \<lparr>answer_questionIndex = 0, selectedAnswer = 1\<rparr> @
                replicate 17 \<lparr>answer_questionIndex = 0, selectedAnswer = 0\<rparr>\<rparr>"

section \<open>Double-precision arithmetic: evaluation\<close>

lemma pow2_up_numeral:
  "pow2_up (numeral k) a p = (if 2 * p \<le> a then pow2_up (pred_numeral k) a (2 * p) else p)"
  by (simp add: numeral_eq_Suc)

lemma pow2_down_numeral:
  "pow2_down (numeral k) a p = (if a < p then pow2_down (pred_numeral k) a (p / 2) else p)"
  by (simp add: numeral_eq_Suc)

lemmas double_eval =
  dadd_def dsub_def dmul_def ddiv_def double_def binade_def round_ties_even_def
  pow2_up_numeral pow2_down_numeral Let_def

lemma double_310: "dsub 310 0 = 310"
  by (simp add: double_eval)

lemma double_half: "ddiv 1 2 = 1 / 2" "dmul (1 / 2) 100 = 50"
  by (simp_all add: double_eval)

lemma double_23_of_40: "round (dmul (ddiv 23 40) 100) = 57" "round ((23::real) / 40 * 100) = 58"
  by (simp_all add: double_eval round_def)

lemma double_rounded_duration:
  "dsub (double (30001 / 100)) (double (1 / 100)) = 300"
  "double (30001 / 100) - double (1 / 100) < 300"
  "double (1 / 100) \<noteq> 0" "double (30001 / 100) \<noteq> 0"
  by (simp_all add: double_eval)

section \<open>The segment merger: invariants\<close>

subsection \<open>Chronological interval lists\<close>

lemma chronological_append:
  "chronological (xs @ ys) \<longleftrightarrow>
     chronological xs \<and> chronological ys \<and> (\<forall>p\<in>set xs. \<forall>q\<in>set ys. fst p \<le> snd q)"
  by (induction xs) (auto simp: list_all_iff)

lemma chronological_drop:
  "chronological (xs @ p # ys) \<Longrightarrow> chronological (xs @ ys)"
  by (auto simp: chronological_append list_all_iff)

lemma chronological_merge:
  "chronological (xs @ p # q # ys) \<Longrightarrow> chronological (xs @ (fst p, snd q) # ys)"
  by (auto simp: chronological_append list_all_iff)

lemma chronological_each: "chronological ps \<Longrightarrow> p \<in> set ps \<Longrightarrow> fst p \<le> snd p"
  by (induction ps) auto

subsection \<open>Both passes keep the intervals chronological\<close>

lemma coarse_step_chronological:
  assumes "chronological (map seg_interval (segs @ running cur) @ frag_interval f # rest)"
    and "coarse_step f (segs, cur, idx) = (segs', cur', idx')"
  shows "chronological (map seg_interval (segs' @ running cur') @ rest)"
proof (cases "frag_text f = []")
  case True
  from assms(1) have "chronological (map seg_interval (segs @ running cur) @ rest)"
    by (rule chronological_drop)
  with True assms(2) show ?thesis by auto
next
  case False
  show ?thesis
  proof (cases cur)
    case None
    with False assms show ?thesis
      by (auto simp: seg_interval_def frag_interval_def)
  next
    case (Some c)
    show ?thesis
    proof (cases "dsub (endTime c) (startTime c) \<ge> segmentDuration")
      case True
      with False Some assms show ?thesis
        by (auto simp: seg_interval_def frag_interval_def)
    next
      case short: False
      from assms(1) Some
      have "chronological (map seg_interval segs @ seg_interval c # frag_interval f # rest)"
        by simp
      then have "chronological
          (map seg_interval segs @ (fst (seg_interval c), snd (frag_interval f)) # rest)"
        by (rule chronological_merge)
      with False Some short assms(2) show ?thesis
        by (auto simp: seg_interval_def frag_interval_def)
    qed
  qed
qed

lemma coarse_loop_chronological:
  "chronological (map seg_interval (segs @ running cur) @ map frag_interval fs) \<Longrightarrow>
   coarse_loop fs (segs, cur, idx) = (segs', cur', idx') \<Longrightarrow>
   chronological (map seg_interval (segs' @ running cur'))"
proof (induction fs arbitrary: segs cur idx)
  case Nil
  then show ?case by simp
next
  case (Cons f fs)
  obtain s1 c1 i1 where st: "coarse_step f (segs, cur, idx) = (s1, c1, i1)"
    by (cases "coarse_step f (segs, cur, idx)") auto
  from Cons.prems(1)
  have "chronological (map seg_interval (segs @ running cur) @ frag_interval f # map frag_interval fs)"
    by simp
  from coarse_step_chronological[OF this st]
  have "chronological (map seg_interval (s1 @ running c1) @ map frag_interval fs)" .
  moreover from Cons.prems(2) st have "coarse_loop fs (s1, c1, i1) = (segs', cur', idx')"
    by simp
  ultimately show ?case by (rule Cons.IH)
qed

lemma coarsePass_running:
  "coarse_loop frags ([], None, 0) = (segs, cur, idx) \<Longrightarrow> coarsePass frags = segs @ running cur"
  by (cases cur) (simp_all add: coarsePass_def)

lemma coarsePass_chronological:
  assumes "chronological (map frag_interval frags)"
  shows "chronological (map seg_interval (coarsePass frags))"
proof -
  obtain segs cur idx where st: "coarse_loop frags ([], None, 0) = (segs, cur, idx)"
    by (cases "coarse_loop frags ([], None, 0)") auto
  from assms have "chronological (map seg_interval ([] @ running None) @ map frag_interval frags)"
    by simp
  from coarse_loop_chronological[OF this st] coarsePass_running[OF st]
  show ?thesis by simp
qed

lemma coarse_loop_kept:
  "coarse_loop frags st = coarse_loop (kept_fragments frags) st"
proof (induction frags arbitrary: st)
  case Nil
  then show ?case by (simp add: kept_fragments_def)
next
  case (Cons f fs)
  obtain segs cur idx where st: "st = (segs, cur, idx)" by (cases st) auto
  show ?case
  proof (cases "frag_text f = []")
    case True
    then have "coarse_step f st = st" by (simp add: st)
    with True Cons.IH[of st] show ?thesis by (simp add: kept_fragments_def)
  next
    case False
    with Cons.IH[of "coarse_step f st"] show ?thesis by (simp add: kept_fragments_def)
  qed
qed

lemma coarsePass_kept: "coarsePass frags = coarsePass (kept_fragments frags)"
  unfolding coarsePass_def by (subst coarse_loop_kept) (rule refl)

lemma min_step_chronological:
  assumes "chronological (map seg_interval (res @ running cur) @ seg_interval s # rest)"
    and "min_step s (res, cur) = (res', cur')"
  shows "chronological (map seg_interval (res' @ running cur') @ rest)"
proof (cases cur)
  case None
  with assms show ?thesis by auto
next
  case (Some c)
  show ?thesis
  proof (cases "wordCount s < minWords")
    case True
    from assms(1) Some
    have "chronological (map seg_interval res @ seg_interval c # seg_interval s # rest)"
      by simp
    then have "chronological
        (map seg_interval res @ (fst (seg_interval c), snd (seg_interval s)) # rest)"
      by (rule chronological_merge)
    with True Some assms(2) show ?thesis
      by (auto simp: seg_interval_def)
  next
    case False
    with Some assms show ?thesis by auto
  qed
qed

lemma min_loop_chronological:
  "chronological (map seg_interval (res @ running cur) @ map seg_interval ss) \<Longrightarrow>
   min_loop ss (res, cur) = (res', cur') \<Longrightarrow>
   chronological (map seg_interval (res' @ running cur'))"
proof (induction ss arbitrary: res cur)
  case Nil
  then show ?case by simp
next
  case (Cons s ss)
  obtain r1 c1 where st: "min_step s (res, cur) = (r1, c1)"
    by (cases "min_step s (res, cur)") auto
  from Cons.prems(1)
  have "chronological (map seg_interval (res @ running cur) @ seg_interval s # map seg_interval ss)"
    by simp
  from min_step_chronological[OF this st]
  have "chronological (map seg_interval (r1 @ running c1) @ map seg_interval ss)" .
  moreover from Cons.prems(2) st have "min_loop ss (r1, c1) = (res', cur')"
    by simp
  ultimately show ?case by (rule Cons.IH)
qed

lemma seg_interval_reindex: "map seg_interval (reindex r) = map seg_interval r"
  by (auto simp: reindex_def seg_interval_def enumerate_eq_zip intro!: nth_equalityI)

lemma ensureMinimum_running:
  "min_loop ss ([], None) = (res, cur) \<Longrightarrow>
   ensureMinimumSegmentLength ss = reindex (res @ running cur)"
  by (cases cur) (simp_all add: ensureMinimumSegmentLength_def)

lemma ensureMinimum_chronological:
  assumes "chronological (map seg_interval ss)"
  shows "chronological (map seg_interval (ensureMinimumSegmentLength ss))"
proof -
  obtain res cur where st: "min_loop ss ([], None) = (res, cur)"
    by (cases "min_loop ss ([], None)") auto
  from assms have "chronological (map seg_interval ([] @ running None) @ map seg_interval ss)"
    by simp
  from min_loop_chronological[OF this st] ensureMinimum_running[OF st]
  show ?thesis by (simp add: seg_interval_reindex)
qed

subsection \<open>Re-indexing\<close>

lemma segmentIndex_reindex: "map segmentIndex (reindex r) = map int [0..<length r]"
  by (auto simp: reindex_def enumerate_eq_zip intro!: nth_equalityI)

lemma length_reindex: "length (reindex r) = length r"
  by (simp add: reindex_def)

lemma segmentIndex_ensureMinimum:
  "map segmentIndex (ensureMinimumSegmentLength ss) =
     map int [0..<length (ensureMinimumSegmentLength ss)]"
proof -
  obtain res cur where st: "min_loop ss ([], None) = (res, cur)"
    by (cases "min_loop ss ([], None)") auto
  show ?thesis
    unfolding ensureMinimum_running[OF st] by (simp only: segmentIndex_reindex length_reindex)
qed

subsection \<open>Appending one more input to the loops\<close>

lemma coarse_loop_append:
  "coarse_loop (xs @ ys) st = coarse_loop ys (coarse_loop xs st)"
  by (induction xs arbitrary: st) simp_all

lemma min_loop_append:
  "min_loop (xs @ ys) st = min_loop ys (min_loop xs st)"
  by (induction xs arbitrary: st) simp_all

lemma coarse_step_counter:
  assumes "coarse_step f (segs, cur, idx) = (segs', cur', idx')"
    and "(cur = None \<and> segs = [] \<and> idx = 0) \<or> (cur \<noteq> None \<and> idx = int (length segs))"
  shows "(cur' = None \<and> segs' = [] \<and> idx' = 0) \<or> (cur' \<noteq> None \<and> idx' = int (length segs'))"
  using assms by (auto split: if_splits option.splits)

lemma coarse_loop_counter:
  "coarse_loop fs (segs, cur, idx) = (segs', cur', idx') \<Longrightarrow>
   (cur = None \<and> segs = [] \<and> idx = 0) \<or> (cur \<noteq> None \<and> idx = int (length segs)) \<Longrightarrow>
   (cur' = None \<and> segs' = [] \<and> idx' = 0) \<or> (cur' \<noteq> None \<and> idx' = int (length segs'))"
proof (induction fs arbitrary: segs cur idx)
  case Nil
  then show ?case by simp
next
  case (Cons f fs)
  obtain s1 c1 i1 where st: "coarse_step f (segs, cur, idx) = (s1, c1, i1)"
    by (cases "coarse_step f (segs, cur, idx)") auto
  from Cons.prems(1) st have "coarse_loop fs (s1, c1, i1) = (segs', cur', idx')" by simp
  moreover from st Cons.prems(2)
  have "(c1 = None \<and> s1 = [] \<and> i1 = 0) \<or> (c1 \<noteq> None \<and> i1 = int (length s1))"
    by (rule coarse_step_counter)
  ultimately show ?case by (rule Cons.IH)
qed

lemma coarsePass_snoc:
  "coarsePass (frags @ [f]) =
    (if frag_text f = [] then coarsePass frags
     else if coarsePass frags = []
     then [\<lparr>startTime = frag_startTime f, endTime = frag_endTime f,
            seg_text = frag_text f, segmentIndex = 0\<rparr>]
     else if dsub (endTime (last (coarsePass frags))) (startTime (last (coarsePass frags))) \<ge> 300
     then coarsePass frags @
            [\<lparr>startTime = frag_startTime f, endTime = frag_endTime f,
              seg_text = frag_text f, segmentIndex = int (length (coarsePass frags))\<rparr>]
     else butlast (coarsePass frags) @
            [(last (coarsePass frags))
               \<lparr>endTime := frag_endTime f,
                seg_text := seg_text (last (coarsePass frags)) @ '' '' @ frag_text f\<rparr>])"
proof -
  obtain segs cur idx where st: "coarse_loop frags ([], None, 0) = (segs, cur, idx)"
    by (cases "coarse_loop frags ([], None, 0)") auto
  have inv: "(cur = None \<and> segs = [] \<and> idx = 0) \<or> (cur \<noteq> None \<and> idx = int (length segs))"
    using st by (rule coarse_loop_counter) simp
  have snoc: "coarse_loop (frags @ [f]) ([], None, 0) = coarse_step f (segs, cur, idx)"
    by (simp add: coarse_loop_append st)
  show ?thesis
  proof (cases cur)
    case None
    with inv snoc st show ?thesis by (simp add: coarsePass_def)
  next
    case (Some c)
    with inv snoc st show ?thesis by (simp add: coarsePass_def segmentDuration_def)
  qed
qed

lemma min_loop_running:
  "min_loop ss (res, Some c) = (res', cur') \<Longrightarrow> cur' \<noteq> None"
proof (induction ss arbitrary: res c)
  case Nil
  then show ?case by auto
next
  case (Cons s ss)
  then show ?case by (cases "wordCount s < minWords") auto
qed

lemma min_loop_nonempty:
  "ss \<noteq> [] \<Longrightarrow> min_loop ss ([], None) = (res, cur) \<Longrightarrow> cur \<noteq> None"
  by (cases ss) (auto dest: min_loop_running)

lemma reindex_Nil: "reindex [] = []"
  by (simp add: reindex_def)

lemma reindex_snoc: "reindex (xs @ [x]) = reindex xs @ [x\<lparr>segmentIndex := int (length xs)\<rparr>]"
  by (simp add: reindex_def enumerate_append_eq)

lemma ensureMinimum_snoc:
  "ensureMinimumSegmentLength (segs @ [s]) =
    (if segs = [] then [s\<lparr>segmentIndex := 0\<rparr>]
     else if wordCount s < 50
     then butlast (ensureMinimumSegmentLength segs) @
            [(last (ensureMinimumSegmentLength segs))
               \<lparr>endTime := endTime s,
                seg_text := seg_text (last (ensureMinimumSegmentLength segs)) @ '' '' @ seg_text s\<rparr>]
     else ensureMinimumSegmentLength segs @
            [s\<lparr>segmentIndex := int (length (ensureMinimumSegmentLength segs))\<rparr>])"
proof (cases "segs = []")
  case True
  then show ?thesis by (simp add: ensureMinimumSegmentLength_def reindex_def)
next
  case False
  obtain res cur where st: "min_loop segs ([], None) = (res, cur)"
    by (cases "min_loop segs ([], None)") auto
  from False st have "cur \<noteq> None" by (rule min_loop_nonempty)
  then obtain c where c: "cur = Some c" by auto
  have snoc: "min_loop (segs @ [s]) ([], None) = min_step s (res, Some c)"
    by (simp add: min_loop_append st c)
  have before: "ensureMinimumSegmentLength segs = reindex res @ [c\<lparr>segmentIndex := int (length res)\<rparr>]"
    by (simp add: ensureMinimumSegmentLength_def st c reindex_snoc)
  show ?thesis
  proof (cases "wordCount s < minWords")
    case True
    with False snoc show ?thesis
      unfolding before by (simp add: ensureMinimumSegmentLength_def reindex_snoc minWords_def)
  next
    case long: False
    have "reindex (res @ [c, s]) =
        reindex res @ [c\<lparr>segmentIndex := int (length res)\<rparr>,
                       s\<lparr>segmentIndex := 1 + int (length res)\<rparr>]"
      using reindex_snoc[of "res @ [c]" s] by (simp add: reindex_snoc)
    with long False snoc show ?thesis
      unfolding before
      by (simp add: ensureMinimumSegmentLength_def minWords_def length_reindex)
  qed
qed

lemma split_space_nonempty: "split_space t \<noteq> []"
  by (induction t) (auto split: list.splits)

lemma length_split_space: "length (split_space t) = Suc (count_list t CHR '' '')"
  by (induction t) (auto split: list.splits simp: split_space_nonempty)

subsection \<open>Word counts of merged segments\<close>

lemma wordCount_merged:
  "wordCount (c\<lparr>endTime := e, seg_text := seg_text c @ '' '' @ seg_text s\<rparr>) =
     wordCount c + wordCount s"
  by (simp add: wordCount_def length_split_space)

lemma wordCount_reindex: "map wordCount (reindex r) = map wordCount r"
  by (auto simp: reindex_def wordCount_def enumerate_eq_zip intro!: nth_equalityI)

lemma min_loop_all_long:
  "min_loop ss (res, Some c) = (res', cur') \<Longrightarrow>
   \<forall>x\<in>set res. minWords \<le> wordCount x \<Longrightarrow> minWords \<le> wordCount c \<Longrightarrow>
   \<forall>x\<in>set (res' @ running cur'). minWords \<le> wordCount x"
proof (induction ss arbitrary: res c)
  case Nil
  then show ?case by auto
next
  case (Cons s ss)
  show ?case
  proof (cases "wordCount s < minWords")
    case True
    let ?c = "c\<lparr>endTime := endTime s, seg_text := seg_text c @ '' '' @ seg_text s\<rparr>"
    from Cons.prems(1) True have "min_loop ss (res, Some ?c) = (res', cur')" by simp
    moreover have "minWords \<le> wordCount ?c"
      using Cons.prems(3) wordCount_merged[where c = c and e = "endTime s" and s = s] by simp
    ultimately show ?thesis using Cons.prems(2) Cons.IH by blast
  next
    case False
    with Cons.prems(1) have "min_loop ss (res @ [c], Some s) = (res', cur')" by simp
    moreover have "\<forall>x\<in>set (res @ [c]). minWords \<le> wordCount x"
      using Cons.prems(2,3) by simp
    moreover have "minWords \<le> wordCount s" using False by simp
    ultimately show ?thesis using Cons.IH by blast
  qed
qed

lemma ensureMinimum_all_long:
  assumes "segs \<noteq> []" "minWords \<le> wordCount (hd segs)"
  shows "\<forall>x\<in>set (ensureMinimumSegmentLength segs). minWords \<le> wordCount x"
proof -
  obtain s ss where segs: "segs = s # ss" using assms(1) by (cases segs) auto
  obtain res cur where st: "min_loop segs ([], None) = (res, cur)"
    by (cases "min_loop segs ([], None)") auto
  then have "min_loop ss ([], Some s) = (res, cur)" by (simp add: segs)
  moreover have "\<forall>x\<in>set ([]::ISegment list). minWords \<le> wordCount x" by simp
  moreover have "minWords \<le> wordCount s" using assms(2) by (simp add: segs)
  ultimately have long: "\<forall>x\<in>set (res @ running cur). minWords \<le> wordCount x"
    by (rule min_loop_all_long)
  have same: "map wordCount (ensureMinimumSegmentLength segs) = map wordCount (res @ running cur)"
    by (simp only: ensureMinimum_running[OF st] wordCount_reindex)
  show ?thesis
  proof
    fix x assume "x \<in> set (ensureMinimumSegmentLength segs)"
    then have "wordCount x \<in> set (map wordCount (ensureMinimumSegmentLength segs))"
      by simp
    then have "wordCount x \<in> set (map wordCount (res @ running cur))"
      by (simp only: same)
    then obtain y where "y \<in> set (res @ running cur)" "wordCount x = wordCount y"
      by auto
    with long show "minWords \<le> wordCount x" by simp
  qed
qed

section \<open>The segment merger: claims\<close>

lemmas merger_defs =
  segmentTranscript_def ensureMinimumSegmentLength_def coarsePass_def
  frag_text_def frag_startTime_def frag_endTime_def trim_def isWhiteSpace_def
  segmentDuration_def wordCount_def minWords_def reindex_def enumerate_eq_zip upt_rec
  double_eval

lemma example_coarse:
  "coarsePass example_fragments =
     [\<lparr>startTime = 0, endTime = 310, seg_text = sixty_words, segmentIndex = 0\<rparr>,
      \<lparr>startTime = 310, endTime = 320, seg_text = ''b'', segmentIndex = 1\<rparr>]"
  by (simp add: merger_defs example_fragments_def sixty_words_def)

lemma example_merged:
  "segmentTranscript (SegmentArray example_fragments) =
     Inr [\<lparr>startTime = 0, endTime = 320, seg_text = sixty_words @ '' b'', segmentIndex = 0\<rparr>]"
  by (simp add: merger_defs example_fragments_def sixty_words_def)

text \<open>
  Claim C1, as stated, fails: on the example fragments the merger does not return two
  final segments.
\<close>

theorem C1_counterexample:
  "map_sum id length (segmentTranscript (SegmentArray example_fragments)) \<noteq> Inr 2"
  by (simp add: example_merged)

text \<open>
  Claim C1, as amended. On the example fragments the coarse pass splits after the first
  fragment (its duration 310 is at least 300) into two coarse segments; in the
  minimum-length pass the second coarse segment has one word, fewer than 50, and is
  merged backward into the first. The merger returns exactly one final segment, from 0
  to 320, with the text of both fragments and index 0.
\<close>

theorem C1_example_merged_backward:
  "coarsePass example_fragments =
     [\<lparr>startTime = 0, endTime = 310, seg_text = sixty_words, segmentIndex = 0\<rparr>,
      \<lparr>startTime = 310, endTime = 320, seg_text = ''b'', segmentIndex = 1\<rparr>] \<and>
   map wordCount (coarsePass example_fragments) = [60, 1] \<and>
   segmentTranscript (SegmentArray example_fragments) =
     Inr [\<lparr>startTime = 0, endTime = 320, seg_text = sixty_words @ '' b'', segmentIndex = 0\<rparr>]"
  by (simp add: example_merged example_coarse wordCount_def sixty_words_def)

text \<open>
  Claim C2, as stated, fails: for coarse segments of fifty words, one word and fifty
  words the code merges the one-word segment backward into the first and returns the
  segments 0 to 620 and 620 to 930, where the pass the claim describes (flush when the
  running word count reaches 50, merge short segments forward) returns 0 to 310 and 310
  to 930.
\<close>

theorem C2_counterexample:
  "ensureMinimumSegmentLength long_short_long =
     [\<lparr>startTime = 0, endTime = 620, seg_text = fifty_words @ '' b'', segmentIndex = 0\<rparr>,
      \<lparr>startTime = 620, endTime = 930, seg_text = fifty_words, segmentIndex = 1\<rparr>] \<and>
   map wordCount long_short_long = [50, 1, 50] \<and>
   spec_minimum_length_pass long_short_long =
     [\<lparr>startTime = 0, endTime = 310, seg_text = fifty_words, segmentIndex = 0\<rparr>,
      \<lparr>startTime = 310, endTime = 930, seg_text = ''b '' @ fifty_words, segmentIndex = 1\<rparr>] \<and>
   ensureMinimumSegmentLength long_short_long \<noteq> spec_minimum_length_pass long_short_long"
  by (simp add: merger_defs spec_minimum_length_pass_def long_short_long_def long_first_def
      short_middle_def long_last_def fifty_words_def)

text \<open>
  Claim C2, as amended. The minimum-length pass walks the coarse segments in order. The
  first one opens the running segment. Each later segment is tested on its own word
  count (the number of pieces between single spaces, empty pieces included, that is one
  more than the number of spaces). With fewer than 50 words it is merged backward into
  the running segment, which takes its end time and its text after a single space. With
  50 words or more, and a running segment of 50 words or more, the running segment is
  flushed and the segment opens a new running segment. The last running segment is
  flushed at the end of the input, and the result is re-indexed contiguously from zero.
  When the first coarse segment has 50 words or more, every running segment has, and
  every resulting segment has 50 words or more. Stated on the output: appending a coarse
  segment to the input either extends the last output segment or adds one output
  segment.
\<close>

theorem C2_minimum_length_pass:
  "ensureMinimumSegmentLength [] = [] \<and>
   ensureMinimumSegmentLength [s] = [s\<lparr>segmentIndex := 0\<rparr>] \<and>
   (segs \<noteq> [] \<and> wordCount s < 50 \<longrightarrow>
      ensureMinimumSegmentLength (segs @ [s]) =
        butlast (ensureMinimumSegmentLength segs) @
          [(last (ensureMinimumSegmentLength segs))
             \<lparr>endTime := endTime s,
              seg_text := seg_text (last (ensureMinimumSegmentLength segs)) @ '' '' @ seg_text s\<rparr>]) \<and>
   (segs \<noteq> [] \<and> 50 \<le> wordCount s \<and> 50 \<le> wordCount (last (ensureMinimumSegmentLength segs)) \<longrightarrow>
      ensureMinimumSegmentLength (segs @ [s]) =
        ensureMinimumSegmentLength segs @
          [s\<lparr>segmentIndex := int (length (ensureMinimumSegmentLength segs))\<rparr>]) \<and>
   (segs \<noteq> [] \<and> 50 \<le> wordCount (hd segs) \<longrightarrow>
      (\<forall>x\<in>set (ensureMinimumSegmentLength segs). 50 \<le> wordCount x)) \<and>
   wordCount s = Suc (count_list (seg_text s) CHR '' '') \<and>
   map segmentIndex (ensureMinimumSegmentLength segs) =
     map int [0..<length (ensureMinimumSegmentLength segs)]"
proof -
  have "ensureMinimumSegmentLength [] = []"
    by (simp add: ensureMinimumSegmentLength_def reindex_Nil)
  moreover have "ensureMinimumSegmentLength [s] = [s\<lparr>segmentIndex := 0\<rparr>]"
    using ensureMinimum_snoc[of "[]" s] by simp
  moreover have "wordCount s = Suc (count_list (seg_text s) CHR '' '')"
    by (simp add: wordCount_def length_split_space)
  moreover have "\<forall>x\<in>set (ensureMinimumSegmentLength segs). 50 \<le> wordCount x"
    if "segs \<noteq> []" "50 \<le> wordCount (hd segs)"
    using ensureMinimum_all_long[of segs] that by (simp add: minWords_def)
  ultimately show ?thesis
    using ensureMinimum_snoc[of segs s] segmentIndex_ensureMinimum[of segs] by simp
qed

theorem C2_witness:
  "[long_first] \<noteq> [] \<and> wordCount short_middle < 50 \<and>
   [long_first, short_middle] \<noteq> [] \<and> 50 \<le> wordCount long_last \<and>
   50 \<le> wordCount (last (ensureMinimumSegmentLength [long_first, short_middle])) \<and>
   50 \<le> wordCount (hd [long_first, short_middle, long_last]) \<and>
   ensureMinimumSegmentLength [long_first, short_middle] =
     [\<lparr>startTime = 0, endTime = 620, seg_text = fifty_words @ '' b'', segmentIndex = 0\<rparr>] \<and>
   ensureMinimumSegmentLength [long_first, short_middle, long_last] =
     [\<lparr>startTime = 0, endTime = 620, seg_text = fifty_words @ '' b'', segmentIndex = 0\<rparr>,
      \<lparr>startTime = 620, endTime = 930, seg_text = fifty_words, segmentIndex = 1\<rparr>] \<and>
   list_all (\<lambda>x. 50 \<le> wordCount x)
     (ensureMinimumSegmentLength [long_first, short_middle, long_last])"
proof -
  have wc: "wordCount long_first = 50" "wordCount short_middle = 1" "wordCount long_last = 50"
    by (simp_all add: wordCount_def long_first_def short_middle_def long_last_def fifty_words_def)
  note one = C2_minimum_length_pass[where s = long_first and segs = "[]"]
  note two = C2_minimum_length_pass[where s = short_middle and segs = "[long_first]"]
  note three = C2_minimum_length_pass[where s = long_last and segs = "[long_first, short_middle]"]
  note all = C2_minimum_length_pass[where s = long_first
      and segs = "[long_first, short_middle, long_last]"]
  have e1: "ensureMinimumSegmentLength [long_first] = [long_first]"
    using one by (simp add: long_first_def)
  have e2: "ensureMinimumSegmentLength [long_first, short_middle] =
     [\<lparr>startTime = 0, endTime = 620, seg_text = fifty_words @ '' b'', segmentIndex = 0\<rparr>]"
    using two wc(2) by (simp add: e1) (simp add: long_first_def short_middle_def)
  have wc2: "wordCount (last (ensureMinimumSegmentLength [long_first, short_middle])) = 51"
    by (simp add: e2 wordCount_def fifty_words_def)
  have e3: "ensureMinimumSegmentLength [long_first, short_middle, long_last] =
     [\<lparr>startTime = 0, endTime = 620, seg_text = fifty_words @ '' b'', segmentIndex = 0\<rparr>,
      \<lparr>startTime = 620, endTime = 930, seg_text = fifty_words, segmentIndex = 1\<rparr>]"
    using three wc(3) wc2 by (simp add: e2) (simp add: long_last_def)
  have "\<forall>x\<in>set (ensureMinimumSegmentLength [long_first, short_middle, long_last]). 50 \<le> wordCount x"
    using all wc(1) by simp
  then have e4: "list_all (\<lambda>x. 50 \<le> wordCount x)
     (ensureMinimumSegmentLength [long_first, short_middle, long_last])"
    by (simp only: list_all_iff)
  show ?thesis using wc wc2 e2 e3 e4 by simp
qed

text \<open>
  Claim C3, as stated, fails: a single fragment that ends before it starts gives an
  output segment whose end time is below its start time.
\<close>

theorem C3_counterexample:
  "segmentTranscript (SegmentArray [backwards_fragment]) =
     Inr [\<lparr>startTime = 10, endTime = 5, seg_text = ''a'', segmentIndex = 0\<rparr>] \<and>
   endTime \<lparr>startTime = 10, endTime = 5, seg_text = ''a'', segmentIndex = 0\<rparr> <
   startTime \<lparr>startTime = 10, endTime = 5, seg_text = ''a'', segmentIndex = 0\<rparr>"
  by (simp add: merger_defs backwards_fragment_def)

text \<open>
  Claim C3, as amended. For every array of raw fragments the merger's output has the
  segment indices 0, 1, 2, ... in order. If the fragments that are not skipped (those
  with non-empty trimmed text) are chronological, that is, none of them starts after its
  own end or after the end of a later one, then every output segment has an end time
  that is at least its start time.
\<close>

theorem C3_indices_and_times:
  "segmentTranscript (SegmentArray frags) = Inr out \<Longrightarrow>
     map segmentIndex out = map int [0..<length out] \<and>
     (chronological (map frag_interval (kept_fragments frags)) \<longrightarrow>
        (\<forall>s\<in>set out. startTime s \<le> endTime s))"
proof -
  assume "segmentTranscript (SegmentArray frags) = Inr out"
  then have out: "out = ensureMinimumSegmentLength (coarsePass frags)"
    by (simp add: segmentTranscript_def)
  have "map segmentIndex out = map int [0..<length out]"
    unfolding out by (rule segmentIndex_ensureMinimum)
  moreover have "\<forall>s\<in>set out. startTime s \<le> endTime s"
    if chrono: "chronological (map frag_interval (kept_fragments frags))"
  proof
    fix s assume "s \<in> set out"
    then have "seg_interval s \<in> set (map seg_interval out)" by simp
    moreover have "chronological (map seg_interval (coarsePass (kept_fragments frags)))"
      using chrono by (rule coarsePass_chronological)
    then have "chronological (map seg_interval (coarsePass frags))"
      by (simp only: coarsePass_kept[symmetric])
    then have "chronological (map seg_interval out)"
      unfolding out by (rule ensureMinimum_chronological)
    ultimately have "fst (seg_interval s) \<le> snd (seg_interval s)"
      by (rule chronological_each[rotated])
    then show "startTime s \<le> endTime s" by (simp add: seg_interval_def)
  qed
  ultimately show ?thesis by blast
qed

theorem C3_witness:
  "segmentTranscript (SegmentArray example_fragments) =
     Inr [\<lparr>startTime = 0, endTime = 320, seg_text = sixty_words @ '' b'', segmentIndex = 0\<rparr>] \<and>
   chronological (map frag_interval (kept_fragments example_fragments)) \<and>
   map segmentIndex [\<lparr>startTime = 0, endTime = 320, seg_text = sixty_words @ '' b'', segmentIndex = 0\<rparr>] = [0] \<and>
   startTime \<lparr>startTime = 0, endTime = 320, seg_text = sixty_words @ '' b'', segmentIndex = 0\<rparr>
     \<le> endTime \<lparr>startTime = 0, endTime = 320, seg_text = sixty_words @ '' b'', segmentIndex = 0\<rparr>"
proof -
  have chrono: "chronological (map frag_interval (kept_fragments example_fragments))"
    by (simp add: example_fragments_def kept_fragments_def frag_interval_def frag_startTime_def
        frag_endTime_def frag_text_def trim_def isWhiteSpace_def sixty_words_def)
  from C3_indices_and_times[OF example_merged] chrono example_merged
  show ?thesis by simp
qed

text \<open>
  Claim C4, as stated, fails in its last part: a single fragment under both thresholds
  whose text has surrounding white space yields a segment with the trimmed text, not the
  unchanged text, and one whose text is white space only yields no segment.
\<close>

theorem C4_counterexample:
  "map_sum id (map seg_text) (segmentTranscript (SegmentArray [padded_fragment])) = Inr [''hi''] \<and>
   raw_text padded_fragment = Some '' hi'' \<and>
   segmentTranscript (SegmentArray [blank_fragment]) = Inr []"
  by (simp add: merger_defs padded_fragment_def blank_fragment_def)

text \<open>
  Claim C4, as amended. The coarse pass skips a fragment whose trimmed text is empty.
  Otherwise, when no running segment exists the fragment opens one with index 0; when
  the running segment's own duration, computed as the double difference of its end and
  its start, is at least 300 the running segment is kept as it is and the fragment opens
  a new one with the next index; when it is below 300 the running segment takes the
  fragment's end time and the fragment's trimmed text after a single space. The last running segment is flushed at
  the end of the input, so it is the last segment of the pass's output. Empty input
  yields empty output. A single fragment yields exactly one output segment, with the
  fragment's trimmed text, when that trimmed text is not empty, and no segment when it
  is empty.
\<close>

theorem C4_coarse_pass:
  "coarsePass [] = [] \<and>
   coarsePass (frags @ [f]) =
    (if frag_text f = [] then coarsePass frags
     else if coarsePass frags = []
     then [\<lparr>startTime = frag_startTime f, endTime = frag_endTime f,
            seg_text = frag_text f, segmentIndex = 0\<rparr>]
     else if dsub (endTime (last (coarsePass frags))) (startTime (last (coarsePass frags))) \<ge> 300
     then coarsePass frags @
            [\<lparr>startTime = frag_startTime f, endTime = frag_endTime f,
              seg_text = frag_text f, segmentIndex = int (length (coarsePass frags))\<rparr>]
     else butlast (coarsePass frags) @
            [(last (coarsePass frags))
               \<lparr>endTime := frag_endTime f,
                seg_text := seg_text (last (coarsePass frags)) @ '' '' @ frag_text f\<rparr>]) \<and>
   frag_text f = trim (case raw_text f of None \<Rightarrow> [] | Some t \<Rightarrow> t) \<and>
   dsub (endTime (last (coarsePass frags))) (startTime (last (coarsePass frags))) =
     double (endTime (last (coarsePass frags)) - startTime (last (coarsePass frags))) \<and>
   segmentTranscript (SegmentArray []) = Inr [] \<and>
   segmentTranscript (SegmentArray [f]) =
     Inr (if frag_text f = [] then []
          else [\<lparr>startTime = frag_startTime f, endTime = frag_endTime f,
                 seg_text = frag_text f, segmentIndex = 0\<rparr>])"
proof -
  have empty: "coarsePass [] = []" by (simp add: coarsePass_def)
  have single: "coarsePass [f] =
      (if frag_text f = [] then []
       else [\<lparr>startTime = frag_startTime f, endTime = frag_endTime f,
              seg_text = frag_text f, segmentIndex = 0\<rparr>])"
    by (simp add: coarsePass_def)
  have "ensureMinimumSegmentLength [] = []"
    by (simp add: ensureMinimumSegmentLength_def reindex_Nil)
  moreover have "ensureMinimumSegmentLength [x] = [x\<lparr>segmentIndex := 0\<rparr>]" for x
    by (simp add: ensureMinimumSegmentLength_def reindex_def)
  ultimately have "segmentTranscript (SegmentArray []) = Inr []"
    and "segmentTranscript (SegmentArray [f]) =
     Inr (if frag_text f = [] then []
          else [\<lparr>startTime = frag_startTime f, endTime = frag_endTime f,
                 seg_text = frag_text f, segmentIndex = 0\<rparr>])"
    by (simp_all add: segmentTranscript_def empty single)
  moreover have "frag_text f = trim (case raw_text f of None \<Rightarrow> [] | Some t \<Rightarrow> t)"
    by (simp add: frag_text_def split: option.splits)
  ultimately show ?thesis
    using empty coarsePass_snoc[of frags f] by (simp add: dsub_def)
qed

text \<open>
  The duration test on doubles: a running segment from 0.01 to 300.01 (the nearest
  doubles) has an exact duration below 300 and a double difference of 300, and the
  coarse pass starts a new segment after it.
\<close>

lemma coarsePass_rounded_duration:
  "coarsePass rounded_fragments =
     [\<lparr>startTime = double (1 / 100), endTime = double (30001 / 100),
       seg_text = ''x'', segmentIndex = 0\<rparr>,
      \<lparr>startTime = double (30001 / 100), endTime = 310, seg_text = ''y'', segmentIndex = 1\<rparr>] \<and>
   double (30001 / 100) - double (1 / 100) < 300 \<and>
   dsub (double (30001 / 100)) (double (1 / 100)) = 300"
proof -
  have "coarsePass rounded_fragments =
     [\<lparr>startTime = double (1 / 100), endTime = double (30001 / 100),
       seg_text = ''x'', segmentIndex = 0\<rparr>,
      \<lparr>startTime = double (30001 / 100), endTime = 310, seg_text = ''y'', segmentIndex = 1\<rparr>]"
    using double_rounded_duration(1,3,4)
    by (simp add: coarsePass_def rounded_fragments_def frag_text_def frag_startTime_def
        frag_endTime_def trim_def isWhiteSpace_def segmentDuration_def)
  with double_rounded_duration(1,2) show ?thesis by simp
qed

section \<open>Quiz assembly and grading: lemmas\<close>

subsection \<open>Records with a quiz position\<close>

lemma truncate_extend: "IQuestion.truncate (IQuestion.extend q (QuizQuestion.fields i)) = q"
  by (simp add: IQuestion.truncate_def IQuestion.extend_def QuizQuestion.fields_def)

lemma questionIndex_extend: "questionIndex (IQuestion.extend q (QuizQuestion.fields i)) = i"
  by (simp add: IQuestion.extend_def QuizQuestion.fields_def)

lemma q_segmentIndex_extend: "q_segmentIndex (IQuestion.extend q r) = q_segmentIndex q"
  by (simp add: IQuestion.extend_def)

lemma length_withIndices: "length (withIndices sel) = length sel"
  by (simp add: withIndices_def)

lemma truncate_withIndices: "map IQuestion.truncate (withIndices sel) = sel"
  by (auto simp: withIndices_def enumerate_eq_zip truncate_extend intro!: nth_equalityI)

lemma questionIndex_withIndices: "map questionIndex (withIndices sel) = [0..<length sel]"
  by (auto simp: withIndices_def enumerate_eq_zip questionIndex_extend intro!: nth_equalityI)

lemma q_segmentIndex_withIndices: "map q_segmentIndex (withIndices sel) = map q_segmentIndex sel"
  by (auto simp: withIndices_def enumerate_eq_zip q_segmentIndex_extend intro!: nth_equalityI)

lemma contribution_count: "contribution qs s = count (mset (map q_segmentIndex qs)) s"
  by (induction qs) (simp_all add: contribution_def)

subsection \<open>The shuffle is a permutation\<close>

lemma random_index_le:
  assumes "0 \<le> u" "u < 1"
  shows "nat \<lfloor>u * real (i + 1)\<rfloor> \<le> i"
proof -
  have "u * real (i + 1) < real (i + 1)"
    using assms by (simp add: mult_less_cancel_right1)
  then have "\<lfloor>u * real (i + 1)\<rfloor> < int (i + 1)"
    by (simp add: floor_less_iff)
  then show ?thesis by linarith
qed

lemma length_shuffle_loop: "length (fst (shuffle_loop rnd m (xs, k))) = length xs"
  by (induction m arbitrary: xs k) (simp_all add: Let_def)

lemma mset_shuffle_loop:
  "valid_random rnd \<Longrightarrow> m \<le> length xs - 1 \<Longrightarrow> mset (fst (shuffle_loop rnd m (xs, k))) = mset xs"
proof (induction m arbitrary: xs k)
  case 0
  then show ?case by simp
next
  case (Suc m)
  let ?j = "nat \<lfloor>rnd k * real (Suc m + 1)\<rfloor>"
  let ?ys = "xs[Suc m := xs ! ?j, ?j := xs ! Suc m]"
  from Suc.prems(2) have i: "Suc m < length xs" by simp
  from Suc.prems(1) have "0 \<le> rnd k" "rnd k < 1" by (simp_all add: valid_random_def)
  then have "?j \<le> Suc m" by (rule random_index_le)
  with i have j: "?j < length xs" by simp
  have "mset ?ys = mset xs" using j i by (rule mset_swap)
  moreover have "m \<le> length ?ys - 1" using i by simp
  from Suc.IH[OF Suc.prems(1) this]
  have "mset (fst (shuffle_loop rnd m (?ys, Suc k))) = mset ?ys" .
  ultimately show ?case by (simp add: Let_def)
qed

lemma map_shuffle_loop:
  "valid_random rnd \<Longrightarrow> m \<le> length xs - 1 \<Longrightarrow>
   shuffle_loop rnd m (map f xs, k) =
     (map f (fst (shuffle_loop rnd m (xs, k))), snd (shuffle_loop rnd m (xs, k)))"
proof (induction m arbitrary: xs k)
  case 0
  then show ?case by simp
next
  case (Suc m)
  let ?j = "nat \<lfloor>rnd k * real (Suc m + 1)\<rfloor>"
  let ?ys = "xs[Suc m := xs ! ?j, ?j := xs ! Suc m]"
  from Suc.prems(2) have i: "Suc m < length xs" by simp
  from Suc.prems(1) have "0 \<le> rnd k" "rnd k < 1" by (simp_all add: valid_random_def)
  then have "?j \<le> Suc m" by (rule random_index_le)
  with i have j: "?j < length xs" by simp
  have swap: "(map f xs)[Suc m := map f xs ! ?j, ?j := map f xs ! Suc m] = map f ?ys"
    using i j by (simp add: map_update)
  have "m \<le> length ?ys - 1" using i by simp
  from Suc.IH[OF Suc.prems(1) this]
  have "shuffle_loop rnd m (map f ?ys, Suc k) =
     (map f (fst (shuffle_loop rnd m (?ys, Suc k))), snd (shuffle_loop rnd m (?ys, Suc k)))" .
  with swap show ?case by (simp add: Let_def)
qed

lemma mset_shuffleArray:
  "valid_random rnd \<Longrightarrow> mset (fst (shuffleArray rnd (xs, k))) = mset xs"
  by (simp add: shuffleArray_def mset_shuffle_loop)

lemma length_shuffleArray: "length (fst (shuffleArray rnd (xs, k))) = length xs"
  by (simp add: shuffleArray_def length_shuffle_loop)

lemma set_shuffleArray:
  "valid_random rnd \<Longrightarrow> set (fst (shuffleArray rnd (xs, k))) = set xs"
  by (metis mset_shuffleArray set_mset_mset)

lemma map_shuffleArray:
  "valid_random rnd \<Longrightarrow>
   fst (shuffleArray rnd (map f xs, k)) = map f (fst (shuffleArray rnd (xs, k)))"
  by (simp add: shuffleArray_def map_shuffle_loop)

subsection \<open>Slices and the order of first occurrence\<close>

lemma slice0_nonneg: "0 \<le> n \<Longrightarrow> slice0 xs n = take (nat n) xs"
  by (simp add: slice0_def)

lemma fold_first_occurrence:
  "distinct seen \<Longrightarrow>
   distinct (fold (\<lambda>x seen. if x \<in> set seen then seen else seen @ [x]) xs seen) \<and>
   set (fold (\<lambda>x seen. if x \<in> set seen then seen else seen @ [x]) xs seen) = set seen \<union> set xs"
  by (induction xs arbitrary: seen) auto

lemma distinct_set_in_order: "distinct (set_in_order xs)"
  using fold_first_occurrence[of "[]" xs] by (simp add: set_in_order_def)

lemma set_set_in_order: "set (set_in_order xs) = set xs"
  using fold_first_occurrence[of "[]" xs] by (simp add: set_in_order_def)

lemma length_set_in_order: "length (set_in_order xs) = card (set xs)"
  by (metis distinct_card distinct_set_in_order set_set_in_order)

subsection \<open>The per-segment branch\<close>

lemma map_take_constant:
  "\<forall>x\<in>set xs. f x = s \<Longrightarrow> map f (take n xs) = replicate (min n (length xs)) s"
proof -
  assume a: "\<forall>x\<in>set xs. f x = s"
  have "\<forall>y\<in>set (map f (take n xs)). y = s"
    using a by (auto dest: in_set_takeD)
  then have "replicate (length (map f (take n xs))) s = map f (take n xs)"
    by (rule replicate_length_same)
  then show ?thesis by (simp add: min.commute)
qed

lemma per_segment_loop_indices:
  "valid_random rnd \<Longrightarrow> 0 \<le> c \<Longrightarrow>
   map q_segmentIndex (fst (per_segment_loop rnd pool c ss (sel, k))) =
     map q_segmentIndex sel @
     concat (map (\<lambda>s. replicate (min (nat c) (contribution pool s)) s) ss)"
proof (induction ss arbitrary: sel k)
  case Nil
  then show ?case by simp
next
  case (Cons s ss)
  let ?grp = "filter (\<lambda>q. q_segmentIndex q = s) pool"
  obtain sh k' where sh: "shuffleArray rnd (?grp, k) = (sh, k')"
    by (cases "shuffleArray rnd (?grp, k)") auto
  from sh have fst: "sh = fst (shuffleArray rnd (?grp, k))" by simp
  have "set sh = set ?grp" unfolding fst using Cons.prems(1) by (rule set_shuffleArray)
  then have all: "\<forall>q\<in>set sh. q_segmentIndex q = s" by simp
  have len: "length sh = contribution pool s"
    unfolding fst by (simp add: length_shuffleArray contribution_def)
  have "map q_segmentIndex (slice0 sh c) = replicate (min (nat c) (contribution pool s)) s"
    using map_take_constant[OF all, of "nat c"] Cons.prems(2) len by (simp add: slice0_nonneg)
  moreover have "map q_segmentIndex (fst (per_segment_loop rnd pool c ss (sel @ slice0 sh c, k'))) =
     map q_segmentIndex (sel @ slice0 sh c) @
     concat (map (\<lambda>s. replicate (min (nat c) (contribution pool s)) s) ss)"
    using Cons.prems by (rule Cons.IH)
  ultimately show ?case using sh by simp
qed

lemma length_concat_replicate_min:
  "length (concat (map (\<lambda>s. replicate (min c (g s)) s) ss)) \<le> c * length ss"
  by (induction ss) auto

lemma count_concat_replicate:
  "distinct ss \<Longrightarrow>
   count (mset (concat (map (\<lambda>t. replicate (n t) t) ss))) s = (if s \<in> set ss then n s else 0)"
  by (induction ss) auto

subsection \<open>Quiz assembly\<close>

lemma generateQuiz_found:
  assumes "db vid = Some video" "questions video = Some pool" "pool \<noteq> []"
    and "selectQuestions rnd pool (case questionsPerSegment of None \<Rightarrow> 2 | Some c \<Rightarrow> c) requested = (sel, k)"
  shows "\<exists>quiz. generateQuiz db rnd now vid questionsPerSegment requested shuffle = Inr quiz \<and>
           shown quiz = (if shuffle = Some False then sel else fst (shuffleArray rnd (sel, k))) \<and>
           quiz_questions quiz = withIndices (shown quiz) \<and>
           quiz_totalQuestions quiz = length (shown quiz)"
proof -
  let ?final = "if shuffle = Some False then sel else fst (shuffleArray rnd (sel, k))"
  let ?quiz = "\<lparr>quizId = vid @ ''_'' @ decimal now,
                quiz_questions = withIndices ?final,
                quiz_totalQuestions = length ?final,
                instructions = ''Select the best answer for each question. Click 'Submit Quiz' when you're done.''\<rparr>"
  have "generateQuiz db rnd now vid questionsPerSegment requested shuffle = Inr ?quiz"
    using assms by (simp add: generateQuiz_def Let_def)
  moreover have "shown ?quiz = ?final"
    by (simp add: shown_def truncate_withIndices)
  ultimately show ?thesis
    by (intro exI[of _ ?quiz]) (simp add: shown_def truncate_withIndices)
qed

lemma total_selection:
  assumes "valid_random rnd" "1 \<le> K"
    and "selectQuestions rnd pool c (Some K) = (sel, k)"
    and "final = (if shuffle = Some False then sel else fst (shuffleArray rnd (sel, k)))"
  shows "\<exists>is. final = map ((!) pool) is \<and> distinct is \<and> set is \<subseteq> {..<length pool} \<and>
           length is = min (nat K) (length pool)"
proof -
  let ?ids = "[0..<length pool]"
  let ?shI = "fst (shuffleArray rnd (?ids, 0))"
  let ?selI = "take (nat K) ?shI"
  let ?is = "if shuffle = Some False then ?selI else fst (shuffleArray rnd (?selI, k))"
  have "fst (shuffleArray rnd (map ((!) pool) ?ids, 0)) = map ((!) pool) ?shI"
    using assms(1) by (rule map_shuffleArray)
  then have sh: "fst (shuffleArray rnd (pool, 0)) = map ((!) pool) ?shI"
    by (simp only: map_nth)
  from assms(2,3) have sel: "sel = take (nat K) (fst (shuffleArray rnd (pool, 0)))"
    by (auto simp: selectQuestions_def slice0_nonneg split: prod.splits)
  then have selI: "sel = map ((!) pool) ?selI"
    by (simp add: sh take_map)
  have "fst (shuffleArray rnd (map ((!) pool) ?selI, k)) = map ((!) pool) (fst (shuffleArray rnd (?selI, k)))"
    using assms(1) by (rule map_shuffleArray)
  then have final: "final = map ((!) pool) ?is"
    unfolding assms(4) selI by simp
  have mshI: "mset ?shI = mset ?ids" using assms(1) by (rule mset_shuffleArray)
  have dshI: "distinct ?shI" using mset_eq_imp_distinct_iff[OF mshI] by simp
  have sshI: "set ?shI = {..<length pool}"
    using mset_eq_setD[OF mshI] by (simp add: atLeast0LessThan)
  have dselI: "distinct ?selI" using dshI by (rule distinct_take)
  have sselI: "set ?selI \<subseteq> {..<length pool}"
    using sshI set_take_subset[of "nat K" ?shI] by simp
  have lselI: "length ?selI = min (nat K) (length pool)"
    by (simp add: length_shuffleArray min.commute)
  have mis: "mset ?is = mset ?selI"
    using assms(1) by (simp add: mset_shuffleArray)
  have "distinct ?is" using mset_eq_imp_distinct_iff[OF mis] dselI by simp
  moreover have "set ?is \<subseteq> {..<length pool}" using mset_eq_setD[OF mis] sselI by simp
  moreover have "length ?is = min (nat K) (length pool)"
    using mset_eq_length[OF mis] lselI by simp
  ultimately show ?thesis using final by blast
qed

lemma total_selection_full:
  assumes "valid_random rnd" "1 \<le> K" "length pool \<le> nat K"
    and "selectQuestions rnd pool c (Some K) = (sel, k)"
    and "final = (if shuffle = Some False then sel else fst (shuffleArray rnd (sel, k)))"
  shows "mset final = mset pool"
proof -
  from assms(2,4) have "sel = take (nat K) (fst (shuffleArray rnd (pool, 0)))"
    by (auto simp: selectQuestions_def slice0_nonneg split: prod.splits)
  with assms(3) have "sel = fst (shuffleArray rnd (pool, 0))"
    by (simp add: length_shuffleArray)
  then have "mset sel = mset pool" using assms(1) by (simp add: mset_shuffleArray)
  moreover have "mset final = mset sel" using assms(1,5) by (simp add: mset_shuffleArray)
  ultimately show ?thesis by simp
qed

lemma per_segment_selection:
  assumes "valid_random rnd" "0 \<le> c" "requested = None \<or> requested = Some 0"
    and "selectQuestions rnd pool c requested = (sel, k)"
    and "final = (if shuffle = Some False then sel else fst (shuffleArray rnd (sel, k)))"
  shows "map q_segmentIndex sel =
           concat (map (\<lambda>s. replicate (min (nat c) (contribution pool s)) s)
                       (set_in_order (map q_segmentIndex pool)))"
    and "mset (map q_segmentIndex final) = mset (map q_segmentIndex sel)"
    and "length final = length sel"
proof -
  from assms(3,4)
  have "sel = fst (per_segment_loop rnd pool c (set_in_order (map q_segmentIndex pool)) ([], 0))"
    by (auto simp: selectQuestions_def)
  then show "map q_segmentIndex sel =
           concat (map (\<lambda>s. replicate (min (nat c) (contribution pool s)) s)
                       (set_in_order (map q_segmentIndex pool)))"
    using per_segment_loop_indices[OF assms(1,2), of pool _ "[]" 0] by simp
  have "mset final = mset sel" using assms(1,5) by (simp add: mset_shuffleArray)
  then show "mset (map q_segmentIndex final) = mset (map q_segmentIndex sel)"
    by simp
  show "length final = length sel" using assms(5) by (simp add: length_shuffleArray)
qed

lemma per_segment_contribution:
  assumes "map q_segmentIndex sel =
           concat (map (\<lambda>s. replicate (min c (contribution pool s)) s)
                       (set_in_order (map q_segmentIndex pool)))"
    and "mset (map q_segmentIndex final) = mset (map q_segmentIndex sel)"
  shows "contribution final s = min c (contribution pool s)"
proof -
  have "contribution final s = count (mset (map q_segmentIndex sel)) s"
    using assms(2) by (simp add: contribution_count)
  also have "\<dots> = (if s \<in> set (set_in_order (map q_segmentIndex pool))
                    then min c (contribution pool s) else 0)"
    unfolding assms(1) using distinct_set_in_order by (rule count_concat_replicate)
  also have "\<dots> = min c (contribution pool s)"
  proof (cases "s \<in> set (map q_segmentIndex pool)")
    case True
    then show ?thesis by (simp add: set_set_in_order)
  next
    case False
    then have "filter (\<lambda>q. q_segmentIndex q = s) pool = []"
      by (auto simp: filter_empty_conv)
    with False show ?thesis by (simp add: set_set_in_order contribution_def)
  qed
  finally show ?thesis .
qed

lemma shown_indices:
  "quiz_questions quiz = withIndices (shown quiz) \<Longrightarrow>
   map q_segmentIndex (quiz_questions quiz) = map q_segmentIndex (shown quiz)"
  by (metis q_segmentIndex_withIndices)

lemma shown_length:
  "quiz_questions quiz = withIndices (shown quiz) \<Longrightarrow>
   length (quiz_questions quiz) = length (shown quiz)"
  by (metis length_withIndices)

lemma contribution_cong:
  "map q_segmentIndex qs = map q_segmentIndex qs' \<Longrightarrow> contribution qs s = contribution qs' s"
  by (simp add: contribution_count)

subsection \<open>Grading\<close>

lemma array_get_inBounds:
  "array_get pool (answer_questionIndex a) =
     (if inBounds pool a then Some (pool ! nat (answer_questionIndex a)) else None)"
  by (simp add: array_get_def inBounds_def)

lemma grade_step_eq:
  "grade_step pool a (rs, c) =
     (if inBounds pool a
      then (rs @ [answerRecord pool a], if answeredCorrectly pool a then c + 1 else c)
      else (rs, c))"
  by (simp add: array_get_inBounds answerRecord_def answeredCorrectly_def Let_def)

lemma grade_loop_eq:
  "grade_loop pool as (rs, c) =
     (rs @ map (answerRecord pool) (filter (inBounds pool) as),
      c + length (filter (answeredCorrectly pool) as))"
proof (induction as arbitrary: rs c)
  case Nil
  then show ?case by simp
next
  case (Cons a as)
  show ?case
  proof (cases "inBounds pool a")
    case True
    then show ?thesis by (simp add: grade_step_eq Cons.IH del: grade_step.simps)
  next
    case False
    then have "\<not> answeredCorrectly pool a" by (simp add: answeredCorrectly_def)
    with False show ?thesis by (simp add: grade_step_eq Cons.IH del: grade_step.simps)
  qed
qed

lemma filter_correct_inBounds:
  "filter (answeredCorrectly pool) (filter (inBounds pool) as) = filter (answeredCorrectly pool) as"
  by (induction as) (auto simp: answeredCorrectly_def)

lemma submitQuiz_found:
  assumes "db (videoId sub) = Some video" "questions video = Some pool" "pool \<noteq> []"
  shows "submitQuiz db sub =
     Inr \<lparr>score = length (filter (answeredCorrectly pool) (answers sub)),
          totalQuestions = length (answers sub),
          percentage =
            (if length (answers sub) > 0
             then round (dmul (ddiv (real (length (filter (answeredCorrectly pool) (answers sub))))
                                    (real (length (answers sub)))) 100)
             else 0),
          result_answers = map (answerRecord pool) (filter (inBounds pool) (answers sub))\<rparr>"
  using assms by (simp add: submitQuiz_def grade_loop_eq Let_def)

section \<open>Quiz assembly and grading: claims\<close>

lemma valid_random_half: "valid_random half"
  by (simp add: valid_random_def half_def)

lemma example_db_v1: "example_db ''v1'' = Some example_video"
  by (simp add: example_db_def)

lemma example_pool: "questions example_video = Some [q0, q1, q2]"
  by (simp add: example_video_def)

text \<open>
  Claim C5, as stated, fails: with \<open>totalQuestions = 0\<close> over a pool of one question
  (so \<open>K \<le> M\<close>) quiz assembly returns that question, not zero questions.
\<close>

theorem C5_counterexample:
  "map_sum id shown (generateQuiz single_db half 0 ''v1'' None (Some 0) None) = Inr [q0] \<and>
   map_sum id quiz_totalQuestions (generateQuiz single_db half 0 ''v1'' None (Some 0) None) \<noteq> Inr 0"
  by (simp add: generateQuiz_def single_db_def selectQuestions_def set_in_order_def q0_def
      shuffleArray_def slice0_def withIndices_def shown_def truncate_extend)

text \<open>
  Claim C5, as amended. When \<open>totalQuestions = K\<close> is at least 1 and the video has a
  non-empty stored pool of size \<open>M\<close>, quiz assembly returns \<open>min K M\<close> questions, and they
  are the stored questions at pairwise distinct positions of the pool: exactly \<open>K\<close>
  questions when \<open>K \<le> M\<close>, a proper part of the pool when \<open>K < M\<close>, and the whole pool
  (in some order) when \<open>K \<ge> M\<close>.
\<close>

theorem C5_total_selection:
  assumes "valid_random rnd" "db vid = Some video" "questions video = Some pool" "pool \<noteq> []"
    and "1 \<le> K"
  shows "\<exists>quiz is. generateQuiz db rnd now vid questionsPerSegment (Some K) shuffle = Inr quiz \<and>
           shown quiz = map ((!) pool) is \<and> distinct is \<and> set is \<subseteq> {..<length pool} \<and>
           length (quiz_questions quiz) = min (nat K) (length pool) \<and>
           quiz_totalQuestions quiz = min (nat K) (length pool) \<and>
           (nat K < length pool \<longrightarrow> set is \<subset> {..<length pool}) \<and>
           (length pool \<le> nat K \<longrightarrow> mset (shown quiz) = mset pool)"
proof -
  let ?c = "case questionsPerSegment of None \<Rightarrow> 2 | Some c \<Rightarrow> c"
  obtain sel k where sel: "selectQuestions rnd pool ?c (Some K) = (sel, k)"
    by (cases "selectQuestions rnd pool ?c (Some K)") auto
  from generateQuiz_found[where db = db and vid = vid and questionsPerSegment = questionsPerSegment
      and now = now and shuffle = shuffle, OF assms(2,3,4) sel]
  obtain quiz where quiz: "generateQuiz db rnd now vid questionsPerSegment (Some K) shuffle = Inr quiz"
    and shown: "shown quiz = (if shuffle = Some False then sel else fst (shuffleArray rnd (sel, k)))"
    and qq: "quiz_questions quiz = withIndices (shown quiz)"
    and tq: "quiz_totalQuestions quiz = length (shown quiz)"
    by blast
  from total_selection[OF assms(1,5) sel shown]
  obtain "is" where "is": "shown quiz = map ((!) pool) is" "distinct is"
    "set is \<subseteq> {..<length pool}" "length is = min (nat K) (length pool)"
    by blast
  have len: "length (shown quiz) = min (nat K) (length pool)"
    using "is"(1,4) by simp
  have proper: "set is \<subset> {..<length pool}" if "nat K < length pool"
  proof -
    have "card (set is) = length is" using "is"(2) by (rule distinct_card)
    with "is"(4) that have "card (set is) < length pool" by simp
    then have "set is \<noteq> {..<length pool}" by (metis card_lessThan less_irrefl)
    with "is"(3) show ?thesis by (rule psubsetI)
  qed
  have full: "mset (shown quiz) = mset pool" if "length pool \<le> nat K"
    using assms(1,5) that sel shown by (rule total_selection_full)
  have len2: "length (quiz_questions quiz) = min (nat K) (length pool)"
    using shown_length[OF qq] len by simp
  have tq2: "quiz_totalQuestions quiz = min (nat K) (length pool)"
    using tq len by simp
  from quiz "is"(1,2,3) len2 tq2 proper full show ?thesis by blast
qed

theorem C5_witness:
  "valid_random half \<and> example_db ''v1'' = Some example_video \<and>
   questions example_video = Some [q0, q1, q2] \<and> [q0, q1, q2] \<noteq> [] \<and> (1::int) \<le> 2 \<and>
   (\<exists>quiz is. generateQuiz example_db half 0 ''v1'' None (Some 2) None = Inr quiz \<and>
      shown quiz = map ((!) [q0, q1, q2]) is \<and> distinct is \<and>
      set is \<subset> {..<length [q0, q1, q2]} \<and>
      length (quiz_questions quiz) = 2 \<and> quiz_totalQuestions quiz = 2)"
proof -
  have ne: "[q0, q1, q2] \<noteq> []" by simp
  have k: "(1::int) \<le> 2" by simp
  from C5_total_selection[where db = example_db and vid = "''v1''" and now = 0
      and questionsPerSegment = None and shuffle = None,
      OF valid_random_half example_db_v1 example_pool ne k]
  obtain quiz "is" where f:
    "generateQuiz example_db half 0 ''v1'' None (Some 2) None = Inr quiz"
    "shown quiz = map ((!) [q0, q1, q2]) is" "distinct is"
    "length (quiz_questions quiz) = min (nat 2) (length [q0, q1, q2])"
    "quiz_totalQuestions quiz = min (nat 2) (length [q0, q1, q2])"
    "nat 2 < length [q0, q1, q2] \<longrightarrow> set is \<subset> {..<length [q0, q1, q2]}"
    by blast
  from f(6) have "set is \<subset> {..<length [q0, q1, q2]}" by simp
  moreover from f(4) have "length (quiz_questions quiz) = 2" by simp
  moreover from f(5) have "quiz_totalQuestions quiz = 2" by simp
  ultimately show ?thesis
    using f(1,2,3) valid_random_half example_db_v1 example_pool ne k
    by (intro conjI exI[of _ quiz] exI[of _ "is"]) assumption+
qed

text \<open>
  Claim C6. In per-segment mode (\<open>totalQuestions\<close> omitted or zero) with a per-segment
  count \<open>C \<ge> 0\<close>, the selection before the optional whole-list shuffle lists the segment
  groups in order of first occurrence in the pool, \<open>min C (group size)\<close> questions for
  each; the final shuffle is applied to that list only when enabled. Hence the quiz has
  at most \<open>C * S\<close> questions for \<open>S\<close> distinct segment groups, and no segment contributes
  more than \<open>min C (its own group size)\<close>.
\<close>

theorem C6_per_segment_selection:
  assumes "valid_random rnd" "db vid = Some video" "questions video = Some pool" "pool \<noteq> []"
    and "requested = None \<or> requested = Some 0" "0 \<le> C"
  shows "\<exists>quiz sel k. generateQuiz db rnd now vid (Some C) requested shuffle = Inr quiz \<and>
           selectQuestions rnd pool C requested = (sel, k) \<and>
           map q_segmentIndex sel =
             concat (map (\<lambda>s. replicate (min (nat C) (contribution pool s)) s)
                         (set_in_order (map q_segmentIndex pool))) \<and>
           shown quiz = (if shuffle = Some False then sel else fst (shuffleArray rnd (sel, k))) \<and>
           length (quiz_questions quiz) \<le> nat C * card (q_segmentIndex ` set pool) \<and>
           (\<forall>s. contribution (quiz_questions quiz) s \<le> min (nat C) (contribution pool s))"
proof -
  obtain sel k where sel: "selectQuestions rnd pool C requested = (sel, k)"
    by (cases "selectQuestions rnd pool C requested") auto
  have "selectQuestions rnd pool (case Some C of None \<Rightarrow> 2 | Some c \<Rightarrow> c) requested = (sel, k)"
    using sel by simp
  from generateQuiz_found[where db = db and vid = vid and questionsPerSegment = "Some C"
      and now = now and shuffle = shuffle, OF assms(2,3,4) this]
  obtain quiz where quiz: "generateQuiz db rnd now vid (Some C) requested shuffle = Inr quiz"
    and shown: "shown quiz = (if shuffle = Some False then sel else fst (shuffleArray rnd (sel, k)))"
    and qq: "quiz_questions quiz = withIndices (shown quiz)"
    by auto
  note ps = per_segment_selection[OF assms(1,6,5) sel shown]
  have "length (map q_segmentIndex sel) \<le> nat C * length (set_in_order (map q_segmentIndex pool))"
    unfolding ps(1) by (rule length_concat_replicate_min)
  then have "length (quiz_questions quiz) \<le> nat C * card (q_segmentIndex ` set pool)"
    using ps(3) shown_length[OF qq] by (simp add: length_set_in_order)
  moreover have "contribution (quiz_questions quiz) s \<le> min (nat C) (contribution pool s)" for s
    using per_segment_contribution[OF ps(1,2), of s] contribution_cong[OF shown_indices[OF qq], of s]
    by simp
  ultimately show ?thesis using quiz sel ps(1) shown by blast
qed

theorem C6_witness:
  "valid_random half \<and> example_db ''v1'' = Some example_video \<and>
   questions example_video = Some [q0, q1, q2] \<and> [q0, q1, q2] \<noteq> [] \<and> (0::int) \<le> 1 \<and>
   (\<exists>quiz. generateQuiz example_db half 0 ''v1'' (Some 1) None (Some False) = Inr quiz \<and>
      map q_segmentIndex (shown quiz) = [0, 1] \<and>
      length (quiz_questions quiz) \<le> nat 1 * card (q_segmentIndex ` set [q0, q1, q2]) \<and>
      (\<forall>s. contribution (quiz_questions quiz) s \<le> min (nat 1) (contribution [q0, q1, q2] s)))"
proof -
  have ne: "[q0, q1, q2] \<noteq> []" by simp
  have c: "(0::int) \<le> 1" by simp
  have req: "(None :: int option) = None \<or> (None :: int option) = Some 0" by simp
  have groups: "set_in_order (map q_segmentIndex [q0, q1, q2]) = [0, 1]"
    by (simp add: set_in_order_def q0_def q1_def q2_def)
  have sizes: "contribution [q0, q1, q2] 0 = 2" "contribution [q0, q1, q2] 1 = 1"
    by (simp_all add: contribution_def q0_def q1_def q2_def)
  from C6_per_segment_selection[where db = example_db and vid = "''v1''" and now = 0
      and shuffle = "Some False",
      OF valid_random_half example_db_v1 example_pool ne req c]
  obtain quiz sel k where
    "generateQuiz example_db half 0 ''v1'' (Some 1) None (Some False) = Inr quiz"
    "map q_segmentIndex sel =
       concat (map (\<lambda>s. replicate (min (nat 1) (contribution [q0, q1, q2] s)) s)
                   (set_in_order (map q_segmentIndex [q0, q1, q2])))"
    "shown quiz = (if Some False = Some False then sel else fst (shuffleArray half (sel, k)))"
    "length (quiz_questions quiz) \<le> nat 1 * card (q_segmentIndex ` set [q0, q1, q2])"
    "\<forall>s. contribution (quiz_questions quiz) s \<le> min (nat 1) (contribution [q0, q1, q2] s)"
    by blast
  note f = this
  from f(2) have "map q_segmentIndex sel = [0, 1]"
    unfolding groups by (simp add: sizes)
  with f(3) have "map q_segmentIndex (shown quiz) = [0, 1]" by simp
  with f(1,4,5) show ?thesis
    using valid_random_half example_db_v1 example_pool ne c
    by (intro conjI exI[of _ quiz]) assumption+
qed

text \<open>
  Claim C7. Quiz assembly fails exactly when the referenced video is absent (message
  ``Video not found'') or its stored question pool is absent or empty (message ``No
  questions available for this video''); in every other case it returns a quiz.
\<close>

theorem C7_generateQuiz_not_found:
  "(generateQuiz db rnd now vid questionsPerSegment requested shuffle = Inl e) =
     ((db vid = None \<and> e = Error ''Failed to generate quiz: Video not found'') \<or>
      ((\<exists>video. db vid = Some video \<and> (questions video = None \<or> questions video = Some [])) \<and>
        e = Error ''Failed to generate quiz: No questions available for this video'')) \<and>
   (\<exists>quiz. generateQuiz db rnd now vid questionsPerSegment requested shuffle = Inr quiz) =
     (\<exists>video pool. db vid = Some video \<and> questions video = Some pool \<and> pool \<noteq> [])"
proof (cases "db vid")
  case None
  then show ?thesis by (auto simp: generateQuiz_def)
next
  case (Some video)
  show ?thesis
  proof (cases "questions video")
    case None
    with Some show ?thesis by (auto simp: generateQuiz_def)
  next
    case pool: (Some pool)
    show ?thesis
    proof (cases "pool = []")
      case True
      with Some pool show ?thesis by (auto simp: generateQuiz_def)
    next
      case False
      obtain sel k where
        "selectQuestions rnd pool (case questionsPerSegment of None \<Rightarrow> 2 | Some c \<Rightarrow> c) requested = (sel, k)"
        by (cases "selectQuestions rnd pool (case questionsPerSegment of None \<Rightarrow> 2 | Some c \<Rightarrow> c) requested") auto
      from generateQuiz_found[where db = db and vid = vid and questionsPerSegment = questionsPerSegment
          and now = now and shuffle = shuffle, OF Some pool False this]
      obtain quiz where "generateQuiz db rnd now vid questionsPerSegment requested shuffle = Inr quiz"
        by blast
      with Some pool False show ?thesis by auto
    qed
  qed
qed

text \<open>
  Claim C8, as stated, fails: against a video whose stored list of questions is empty,
  where every offset is out of bounds, a submission is not graded with its pairs
  skipped; grading fails with ``No questions available for grading''.
\<close>

theorem C8_counterexample:
  "empty_pool_db (videoId submission_out_of_range) = Some \<lparr>questions = Some []\<rparr> \<and>
   submitQuiz empty_pool_db submission_out_of_range =
     Inl (Error ''Failed to submit quiz: No questions available for grading'')"
  by (simp add: submitQuiz_def empty_pool_db_def submission_out_of_range_def)

text \<open>
  Claim C8, as amended. Against a video with a non-empty stored list of questions, a
  submitted pair whose \<open>questionIndex\<close> is out of bounds of that list (negative, or not
  below its length) is skipped: grading returns normally, the result records are those
  of the in-bounds pairs, in order, each built from the stored question at the
  submitted offset, and the score counts the in-bounds pairs whose selected answer is
  that question's correct answer. Records and score are those of the submission with the
  out-of-bounds pairs removed, and a submission with an out-of-bounds pair gets fewer
  records than it has pairs.
\<close>

theorem C8_out_of_bounds_skipped:
  assumes "db (videoId sub) = Some video" "questions video = Some pool" "pool \<noteq> []"
  shows "\<exists>r r'. submitQuiz db sub = Inr r \<and>
           submitQuiz db (sub\<lparr>answers := filter (inBounds pool) (answers sub)\<rparr>) = Inr r' \<and>
           result_answers r = result_answers r' \<and> score r = score r' \<and>
           result_answers r = map (answerRecord pool) (filter (inBounds pool) (answers sub)) \<and>
           score r = length (filter (\<lambda>a. inBounds pool a \<and>
                        selectedAnswer a = correctAnswer (pool ! nat (answer_questionIndex a)))
                      (answers sub)) \<and>
           ((\<exists>a\<in>set (answers sub). \<not> inBounds pool a) \<longrightarrow>
              length (result_answers r) < length (answers sub))"
proof -
  let ?sub' = "sub\<lparr>answers := filter (inBounds pool) (answers sub)\<rparr>"
  have db': "db (videoId ?sub') = Some video" using assms(1) by simp
  note r = submitQuiz_found[where db = db and sub = sub, OF assms]
  note r' = submitQuiz_found[where db = db and sub = ?sub', OF db' assms(2,3)]
  have correct: "answeredCorrectly pool = (\<lambda>a. inBounds pool a \<and>
      selectedAnswer a = correctAnswer (pool ! nat (answer_questionIndex a)))"
    by (rule ext) (simp add: answeredCorrectly_def)
  have shorter: "length (filter (inBounds pool) (answers sub)) < length (answers sub)"
    if "\<exists>a\<in>set (answers sub). \<not> inBounds pool a"
    using that by (auto intro: length_filter_less)
  show ?thesis
    unfolding r r' using shorter filter_correct_inBounds[of pool "answers sub"]
    by (simp add: correct[symmetric])
qed

theorem C8_witness:
  "example_db (videoId submission_out_of_range) = Some example_video \<and>
   questions example_video = Some [q0, q1, q2] \<and> [q0, q1, q2] \<noteq> [] \<and>
   (\<exists>a\<in>set (answers submission_out_of_range). \<not> inBounds [q0, q1, q2] a) \<and>
   (\<exists>r. submitQuiz example_db submission_out_of_range = Inr r \<and>
      result_answers r =
        [\<lparr>result_questionIndex = 0, result_question = ''Q0'', result_selectedAnswer = 1,
          result_correctAnswer = 1, isCorrect = True,
          result_explanation = ''No explanation provided''\<rparr>] \<and>
      score r = 1 \<and>
      length (result_answers r) < length (answers submission_out_of_range))"
proof -
  have db: "example_db (videoId submission_out_of_range) = Some example_video"
    by (simp add: submission_out_of_range_def example_db_def)
  have ne: "[q0, q1, q2] \<noteq> []" by simp
  have out: "\<exists>a\<in>set (answers submission_out_of_range). \<not> inBounds [q0, q1, q2] a"
    by (simp add: submission_out_of_range_def inBounds_def)
  have kept: "map (answerRecord [q0, q1, q2])
       (filter (inBounds [q0, q1, q2]) (answers submission_out_of_range)) =
     [\<lparr>result_questionIndex = 0, result_question = ''Q0'', result_selectedAnswer = 1,
       result_correctAnswer = 1, isCorrect = True,
       result_explanation = ''No explanation provided''\<rparr>]"
    by (simp add: submission_out_of_range_def inBounds_def answerRecord_def q0_def)
  have right: "length (filter (\<lambda>a. inBounds [q0, q1, q2] a \<and>
        selectedAnswer a = correctAnswer ([q0, q1, q2] ! nat (answer_questionIndex a)))
      (answers submission_out_of_range)) = 1"
    by (simp add: submission_out_of_range_def inBounds_def q0_def)
  from C8_out_of_bounds_skipped[where db = example_db and sub = submission_out_of_range,
      OF db example_pool ne]
  obtain r where f: "submitQuiz example_db submission_out_of_range = Inr r"
    "result_answers r = map (answerRecord [q0, q1, q2])
       (filter (inBounds [q0, q1, q2]) (answers submission_out_of_range))"
    "score r = length (filter (\<lambda>a. inBounds [q0, q1, q2] a \<and>
        selectedAnswer a = correctAnswer ([q0, q1, q2] ! nat (answer_questionIndex a)))
      (answers submission_out_of_range))"
    "(\<exists>a\<in>set (answers submission_out_of_range). \<not> inBounds [q0, q1, q2] a) \<longrightarrow>
       length (result_answers r) < length (answers submission_out_of_range)"
    by blast
  from f(2) kept have "result_answers r =
        [\<lparr>result_questionIndex = 0, result_question = ''Q0'', result_selectedAnswer = 1,
          result_correctAnswer = 1, isCorrect = True,
          result_explanation = ''No explanation provided''\<rparr>]" by simp
  moreover from f(3) right have "score r = 1" by simp
  moreover from f(4) out have "length (result_answers r) < length (answers submission_out_of_range)"
    by (rule mp)
  ultimately show ?thesis using f(1) db example_pool ne out
    by (intro conjI exI[of _ r]) assumption+
qed

text \<open>
  Claim C9, as stated, fails: the code rounds the double \<open>(correct / submitted) * 100\<close>,
  not the exact quotient. For 23 correct answers out of 40 the double is just below 57.5
  and grading returns 57 percent, where \<open>round (23 / 40 * 100)\<close> is 58.
\<close>

theorem C9_counterexample:
  "map_sum id score (submitQuiz single_db submission_23_of_40) = Inr 23 \<and>
   map_sum id totalQuestions (submitQuiz single_db submission_23_of_40) = Inr 40 \<and>
   map_sum id percentage (submitQuiz single_db submission_23_of_40) = Inr 57 \<and>
   round ((23::real) / 40 * 100) = 58"
proof -
  have db: "single_db (videoId submission_23_of_40) = Some \<lparr>questions = Some [q0]\<rparr>"
    by (simp add: single_db_def submission_23_of_40_def)
  have pool: "questions \<lparr>questions = Some [q0]\<rparr> = Some [q0]" by simp
  have ne: "[q0] \<noteq> []" by simp
  have right: "answeredCorrectly [q0] \<lparr>answer_questionIndex = 0, selectedAnswer = 1\<rparr>"
    by (simp add: answeredCorrectly_def inBounds_def q0_def)
  have wrong: "\<not> answeredCorrectly [q0] \<lparr>answer_questionIndex = 0, selectedAnswer = 0\<rparr>"
    by (simp add: answeredCorrectly_def inBounds_def q0_def)
  have sc: "length (filter (answeredCorrectly [q0]) (answers submission_23_of_40)) = 23"
    by (simp add: submission_23_of_40_def right wrong)
  have n: "length (answers submission_23_of_40) = 40"
    by (simp add: submission_23_of_40_def)
  show ?thesis
    unfolding submitQuiz_found[where db = single_db and sub = submission_23_of_40, OF db pool ne] sc n
    using double_23_of_40(2) by (simp add: double_23_of_40(1))
qed

text \<open>
  Claim C9, as amended. Against a video with a non-empty stored pool, grading returns
  the number of submitted pairs that are in bounds and select the stored correct answer
  of the question at their offset, the number of submitted pairs (skipped ones
  included), and the percentage \<open>Math.round ((correct / submitted) * 100)\<close> with the
  quotient and the product computed on doubles, which is 0 for an empty submission. One
  correct and one incorrect answer give score 1 and 50 percent.
\<close>

theorem C9_score_and_percentage:
  assumes "db (videoId sub) = Some video" "questions video = Some pool" "pool \<noteq> []"
  shows "\<exists>r. submitQuiz db sub = Inr r \<and>
           score r = length (filter (\<lambda>a. inBounds pool a \<and>
                        selectedAnswer a = correctAnswer (pool ! nat (answer_questionIndex a)))
                      (answers sub)) \<and>
           totalQuestions r = length (answers sub) \<and>
           percentage r =
             (if answers sub = [] then 0
              else round (dmul (ddiv (real (score r)) (real (length (answers sub)))) 100)) \<and>
           (answers sub = [a1, a2] \<and> answeredCorrectly pool a1 \<and> \<not> answeredCorrectly pool a2 \<longrightarrow>
              score r = 1 \<and> percentage r = 50)"
proof -
  note r = submitQuiz_found[where db = db and sub = sub, OF assms]
  have correct: "answeredCorrectly pool = (\<lambda>a. inBounds pool a \<and>
      selectedAnswer a = correctAnswer (pool ! nat (answer_questionIndex a)))"
    by (rule ext) (simp add: answeredCorrectly_def)
  show ?thesis unfolding r by (auto simp: correct[symmetric] double_half)
qed

theorem C9_witness:
  "example_db (videoId submission_half_right) = Some example_video \<and>
   questions example_video = Some [q0, q1, q2] \<and> [q0, q1, q2] \<noteq> [] \<and>
   answers submission_half_right =
     [\<lparr>answer_questionIndex = 0, selectedAnswer = 1\<rparr>, \<lparr>answer_questionIndex = 1, selectedAnswer = 0\<rparr>] \<and>
   answeredCorrectly [q0, q1, q2] \<lparr>answer_questionIndex = 0, selectedAnswer = 1\<rparr> \<and>
   \<not> answeredCorrectly [q0, q1, q2] \<lparr>answer_questionIndex = 1, selectedAnswer = 0\<rparr> \<and>
   (\<exists>r. submitQuiz example_db submission_half_right = Inr r \<and>
      score r = 1 \<and> totalQuestions r = 2 \<and> percentage r = 50)"
proof -
  have db: "example_db (videoId submission_half_right) = Some example_video"
    by (simp add: submission_half_right_def example_db_def)
  have ne: "[q0, q1, q2] \<noteq> []" by simp
  have ans: "answers submission_half_right =
     [\<lparr>answer_questionIndex = 0, selectedAnswer = 1\<rparr>, \<lparr>answer_questionIndex = 1, selectedAnswer = 0\<rparr>]"
    by (simp add: submission_half_right_def)
  have right: "answeredCorrectly [q0, q1, q2] \<lparr>answer_questionIndex = 0, selectedAnswer = 1\<rparr>"
    by (simp add: answeredCorrectly_def inBounds_def q0_def)
  have wrong: "\<not> answeredCorrectly [q0, q1, q2] \<lparr>answer_questionIndex = 1, selectedAnswer = 0\<rparr>"
    by (simp add: answeredCorrectly_def inBounds_def q1_def)
  from C9_score_and_percentage[where db = example_db and sub = submission_half_right
      and ?a1.0 = "\<lparr>answer_questionIndex = 0, selectedAnswer = 1\<rparr>"
      and ?a2.0 = "\<lparr>answer_questionIndex = 1, selectedAnswer = 0\<rparr>",
      OF db example_pool ne]
  obtain r where f: "submitQuiz example_db submission_half_right = Inr r"
    "totalQuestions r = length (answers submission_half_right)"
    "answers submission_half_right =
       [\<lparr>answer_questionIndex = 0, selectedAnswer = 1\<rparr>, \<lparr>answer_questionIndex = 1, selectedAnswer = 0\<rparr>] \<and>
     answeredCorrectly [q0, q1, q2] \<lparr>answer_questionIndex = 0, selectedAnswer = 1\<rparr> \<and>
     \<not> answeredCorrectly [q0, q1, q2] \<lparr>answer_questionIndex = 1, selectedAnswer = 0\<rparr> \<longrightarrow>
     score r = 1 \<and> percentage r = 50"
    by blast
  from f(3) ans right wrong have "score r = 1" "percentage r = 50" by blast+
  moreover from f(2) have "totalQuestions r = 2" by (simp add: ans)
  ultimately show ?thesis using f(1) db example_pool ne ans right wrong
    by (intro conjI exI[of _ r]) assumption+
qed

text \<open>
  Claim C10, as stated, fails: with \<open>totalQuestions = 0\<close> and
  \<open>questionsPerSegment = 0\<close> the per-segment branch takes no question from any group and
  quiz assembly returns an empty quiz.
\<close>

theorem C10_counterexample:
  "map_sum id quiz_questions (generateQuiz single_db half 0 ''v1'' (Some 0) (Some 0) None) = Inr []"
  by (simp add: generateQuiz_def single_db_def selectQuestions_def set_in_order_def q0_def
      shuffleArray_def slice0_def withIndices_def)

text \<open>
  Claim C10, as amended. A call with \<open>totalQuestions = 0\<close> returns what the same call with
  \<open>totalQuestions\<close> omitted returns. On a non-empty pool with a per-segment count of at
  least 1 (the default is 2) that quiz is not empty: every segment group contributes
  \<open>min (per-segment count) (group size)\<close> questions.
\<close>

theorem C10_zero_total_is_per_segment:
  "generateQuiz db rnd now vid questionsPerSegment (Some 0) shuffle =
     generateQuiz db rnd now vid questionsPerSegment None shuffle \<and>
   (valid_random rnd \<and> db vid = Some video \<and> questions video = Some pool \<and> pool \<noteq> [] \<and>
    1 \<le> (case questionsPerSegment of None \<Rightarrow> 2 | Some c \<Rightarrow> c) \<longrightarrow>
      (\<exists>quiz. generateQuiz db rnd now vid questionsPerSegment (Some 0) shuffle = Inr quiz \<and>
         quiz_questions quiz \<noteq> [] \<and>
         (\<forall>s. contribution (quiz_questions quiz) s =
                min (nat (case questionsPerSegment of None \<Rightarrow> 2 | Some c \<Rightarrow> c)) (contribution pool s))))"
proof -
  let ?c = "case questionsPerSegment of None \<Rightarrow> 2 | Some c \<Rightarrow> c"
  have same: "generateQuiz db rnd now vid questionsPerSegment (Some 0) shuffle =
     generateQuiz db rnd now vid questionsPerSegment None shuffle"
  proof -
    have sel0: "selectQuestions rnd p c (Some 0) = selectQuestions rnd p c None" for p c
      by (simp add: selectQuestions_def)
    show ?thesis unfolding generateQuiz_def sel0 by (rule refl)
  qed
  have "\<exists>quiz. generateQuiz db rnd now vid questionsPerSegment (Some 0) shuffle = Inr quiz \<and>
         quiz_questions quiz \<noteq> [] \<and>
         (\<forall>s. contribution (quiz_questions quiz) s = min (nat ?c) (contribution pool s))"
    if valid: "valid_random rnd" and db: "db vid = Some video" "questions video = Some pool"
      and ne: "pool \<noteq> []" and c: "1 \<le> ?c"
  proof -
    obtain sel k where sel: "selectQuestions rnd pool ?c (Some 0) = (sel, k)"
      by (cases "selectQuestions rnd pool ?c (Some 0)") auto
    from generateQuiz_found[where db = db and vid = vid and questionsPerSegment = questionsPerSegment
        and now = now and shuffle = shuffle, OF db ne sel]
    obtain quiz where quiz: "generateQuiz db rnd now vid questionsPerSegment (Some 0) shuffle = Inr quiz"
      and shown: "shown quiz = (if shuffle = Some False then sel else fst (shuffleArray rnd (sel, k)))"
      and qq: "quiz_questions quiz = withIndices (shown quiz)"
      by blast
    from c have c0: "0 \<le> ?c" by simp
    have req: "Some (0::int) = None \<or> Some (0::int) = Some 0" by simp
    note ps = per_segment_selection[OF valid c0 req sel shown]
    have contrib: "contribution (quiz_questions quiz) s = min (nat ?c) (contribution pool s)" for s
      using per_segment_contribution[OF ps(1,2), of s] contribution_cong[OF shown_indices[OF qq], of s]
      by simp
    obtain q qs where "pool = q # qs" using ne by (cases pool) auto
    then have "1 \<le> contribution pool (q_segmentIndex q)" by (simp add: contribution_def)
    with c have "1 \<le> contribution (quiz_questions quiz) (q_segmentIndex q)"
      unfolding contrib by simp
    then have "quiz_questions quiz \<noteq> []" by (auto simp: contribution_def)
    with quiz contrib show ?thesis by blast
  qed
  with same show ?thesis by blast
qed

theorem C10_witness:
  "valid_random half \<and> example_db ''v1'' = Some example_video \<and>
   questions example_video = Some [q0, q1, q2] \<and> [q0, q1, q2] \<noteq> [] \<and>
   (1::int) \<le> (case None of None \<Rightarrow> 2 | Some c \<Rightarrow> c) \<and>
   generateQuiz example_db half 0 ''v1'' None (Some 0) None =
     generateQuiz example_db half 0 ''v1'' None None None \<and>
   (\<exists>quiz. generateQuiz example_db half 0 ''v1'' None (Some 0) None = Inr quiz \<and>
      quiz_questions quiz \<noteq> [] \<and>
      contribution (quiz_questions quiz) 0 = 2 \<and> contribution (quiz_questions quiz) 1 = 1)"
proof -
  have sizes: "contribution [q0, q1, q2] 0 = 2" "contribution [q0, q1, q2] 1 = 1"
    by (simp_all add: contribution_def q0_def q1_def q2_def)
  have ne: "[q0, q1, q2] \<noteq> []" by simp
  have c: "(1::int) \<le> (case None of None \<Rightarrow> 2 | Some c \<Rightarrow> c)" by simp
  note inst = C10_zero_total_is_per_segment[where db = example_db and rnd = half and now = 0
      and vid = "''v1''" and questionsPerSegment = None and shuffle = None
      and video = example_video and pool = "[q0, q1, q2]"]
  from inst have same: "generateQuiz example_db half 0 ''v1'' None (Some 0) None =
     generateQuiz example_db half 0 ''v1'' None None None"
    by (rule conjunct1)
  from inst valid_random_half example_db_v1 example_pool ne c
  obtain quiz where quiz: "generateQuiz example_db half 0 ''v1'' None (Some 0) None = Inr quiz"
      "quiz_questions quiz \<noteq> []"
      "\<forall>s. contribution (quiz_questions quiz) s =
         min (nat (case None of None \<Rightarrow> 2 | Some c \<Rightarrow> c)) (contribution [q0, q1, q2] s)"
    by blast
  from quiz(3) sizes have "contribution (quiz_questions quiz) 0 = 2"
    "contribution (quiz_questions quiz) 1 = 1"
    by simp_all
  with quiz(1,2) same valid_random_half example_db_v1 example_pool ne c
  show ?thesis by (intro conjI exI[of _ quiz]) assumption+
qed

end
